theory Spec2Isabelle
  imports Main "HOL-Library.Sublist" "HOL-Library.Product_Lexorder"
begin

section \<open>Strings\<close>

text \<open>
  A Python \<open>str\<close> is a sequence of Unicode code points; it is modelled as a list of
  naturals, so that \<open>length\<close> is Python's \<open>len\<close>. ASCII literals are written with
  \<open>ustr\<close>; the few non-ASCII characters of the source are given by their code point.
\<close>

type_synonym pystr = "nat list"

definition ustr :: "string \<Rightarrow> pystr" where
  "ustr s = map of_char s"

definition ord :: "char \<Rightarrow> nat" where
  "ord c = of_char c"

text \<open>The characters for which \<open>str.isspace\<close> holds; the \<open>re\<close> class \<open>\s\<close> is the same set.\<close>

definition is_space :: "nat \<Rightarrow> bool" where
  "is_space c \<longleftrightarrow>
     (9 \<le> c \<and> c \<le> 13) \<or> (28 \<le> c \<and> c \<le> 32) \<or> c = 133 \<or> c = 160 \<or> c = 5760 \<or>
     (8192 \<le> c \<and> c \<le> 8202) \<or> c = 8232 \<or> c = 8233 \<or> c = 8239 \<or> c = 8287 \<or> c = 12288"

definition is_upper_az :: "nat \<Rightarrow> bool" where
  "is_upper_az c \<longleftrightarrow> 65 \<le> c \<and> c \<le> 90"

definition is_lower_az :: "nat \<Rightarrow> bool" where
  "is_lower_az c \<longleftrightarrow> 97 \<le> c \<and> c \<le> 122"

definition is_digit09 :: "nat \<Rightarrow> bool" where
  "is_digit09 c \<longleftrightarrow> 48 \<le> c \<and> c \<le> 57"

definition one_of :: "string \<Rightarrow> nat \<Rightarrow> bool" where
  "one_of cs c \<longleftrightarrow> c \<in> set (ustr cs)"

text \<open>
  The parts of the Unicode database that the source reaches through \<open>str.lower\<close> and the
  \<open>re\<close> class \<open>\w\<close> are fixed on ASCII and are parameters beyond it: \<open>lower_ext\<close> is
  \<open>str.lower\<close> on strings with a non-ASCII character, \<open>alnum_ext\<close> is \<open>str.isalnum\<close> on
  non-ASCII code points.
\<close>

record unicode =
  lower_ext :: "pystr \<Rightarrow> pystr"
  alnum_ext :: "nat \<Rightarrow> bool"

definition ascii_lower :: "nat \<Rightarrow> nat" where
  "ascii_lower c = (if is_upper_az c then c + 32 else c)"

definition py_lower :: "unicode \<Rightarrow> pystr \<Rightarrow> pystr" where
  "py_lower U s = (if list_all (\<lambda>c. c < 128) s then map ascii_lower s else lower_ext U s)"

definition startswith :: "pystr \<Rightarrow> pystr \<Rightarrow> bool" where
  "startswith s p = prefix p s"

definition endswith :: "pystr \<Rightarrow> pystr \<Rightarrow> bool" where
  "endswith s p = suffix p s"

text \<open>\<open>a in b\<close> on strings: \<open>a\<close> occurs in \<open>b\<close> as a contiguous substring.\<close>

definition py_in :: "pystr \<Rightarrow> pystr \<Rightarrow> bool" where
  "py_in a b = sublist a b"

text \<open>\<open>s.strip()\<close>\<close>

definition py_strip :: "pystr \<Rightarrow> pystr" where
  "py_strip s = rev (dropWhile is_space (rev (dropWhile is_space s)))"

text \<open>\<open>s.replace(old, new)\<close> for a non-empty \<open>old\<close>: leftmost non-overlapping occurrences.\<close>

fun py_replace :: "pystr \<Rightarrow> pystr \<Rightarrow> pystr \<Rightarrow> pystr" where
  "py_replace old new [] = []"
| "py_replace old new (x # xs) =
     (if old \<noteq> [] \<and> prefix old (x # xs)
      then new @ py_replace old new (drop (length old - 1) xs)
      else x # py_replace old new xs)"

text \<open>\<open>s.split(sep, 1)\<close> for a one-character \<open>sep\<close> that occurs in \<open>s\<close>: the text before the
  first occurrence and the text after it; \<open>None\<close> when \<open>sep\<close> does not occur.\<close>

fun split_once :: "nat \<Rightarrow> pystr \<Rightarrow> (pystr \<times> pystr) option" where
  "split_once sep [] = None"
| "split_once sep (x # xs) =
     (if x = sep then Some ([], xs)
      else (case split_once sep xs of None \<Rightarrow> None | Some (a, b) \<Rightarrow> Some (x # a, b)))"

text \<open>\<open>sep.join(parts)\<close>\<close>

fun py_join :: "pystr \<Rightarrow> pystr list \<Rightarrow> pystr" where
  "py_join sep [] = []"
| "py_join sep [p] = p"
| "py_join sep (p # q # ps) = p @ sep @ py_join sep (q # ps)"

section \<open>Regular expressions\<close>

text \<open>
  Python's \<open>re\<close> is a backtracking matcher: alternatives are tried left to right, the
  quantifiers of the source are all greedy, and the first way of matching that succeeds
  is the match. The patterns of the source only repeat single character classes, so
  \<open>Star\<close> takes a class. \<open>Grp n r\<close> is the capturing group number \<open>n\<close>; \<open>Eos\<close> is \<open>$\<close>
  without \<open>re.MULTILINE\<close>: the end of the string, or just before a final newline.
\<close>

datatype rx =
    Cls "nat \<Rightarrow> bool"
  | Eps
  | Seq rx rx
  | Alt rx rx
  | Star "nat \<Rightarrow> bool"
  | Grp nat rx
  | Eos

type_synonym caps = "(nat \<times> pystr) list"

fun star_ends :: "(nat \<Rightarrow> bool) \<Rightarrow> pystr \<Rightarrow> pystr list" where
  "star_ends p [] = [[]]"
| "star_ends p (x # xs) = (if p x then star_ends p xs else []) @ [x # xs]"

text \<open>
  \<open>ms r s c\<close> lists every way \<open>r\<close> matches a prefix of \<open>s\<close>, in the order the backtracking
  matcher tries them: each entry is the unread rest of \<open>s\<close> with the groups captured so far.
\<close>

fun ms :: "rx \<Rightarrow> pystr \<Rightarrow> caps \<Rightarrow> (pystr \<times> caps) list" where
  "ms (Cls p) s c = (case s of [] \<Rightarrow> [] | x # xs \<Rightarrow> if p x then [(xs, c)] else [])"
| "ms Eps s c = [(s, c)]"
| "ms (Seq a b) s c = concat (map (\<lambda>(s', c'). ms b s' c') (ms a s c))"
| "ms (Alt a b) s c = ms a s c @ ms b s c"
| "ms (Star p) s c = map (\<lambda>s'. (s', c)) (star_ends p s)"
| "ms (Grp n a) s c = map (\<lambda>(s', c'). (s', (n, take (length s - length s') s) # c')) (ms a s c)"
| "ms Eos s c = (if s = [] \<or> s = [10] then [(s, c)] else [])"

definition Opt :: "rx \<Rightarrow> rx" where
  "Opt r = Alt r Eps"

definition Plus :: "(nat \<Rightarrow> bool) \<Rightarrow> rx" where
  "Plus p = Seq (Cls p) (Star p)"

fun seqs :: "rx list \<Rightarrow> rx" where
  "seqs [] = Eps"
| "seqs [r] = r"
| "seqs (r # rs) = Seq r (seqs rs)"

fun alts :: "rx list \<Rightarrow> rx" where
  "alts [] = Seq (Cls (\<lambda>c. False)) Eps"
| "alts [r] = r"
| "alts (r # rs) = Alt r (alts rs)"

text \<open>\<open>p{n}\<close> and the greedy \<open>p{0,n}\<close> for a class \<open>p\<close>.\<close>

fun times :: "nat \<Rightarrow> (nat \<Rightarrow> bool) \<Rightarrow> rx" where
  "times 0 p = Eps"
| "times (Suc n) p = Seq (Cls p) (times n p)"

fun upto :: "nat \<Rightarrow> (nat \<Rightarrow> bool) \<Rightarrow> rx" where
  "upto 0 p = Eps"
| "upto (Suc n) p = Alt (Seq (Cls p) (upto n p)) Eps"

text \<open>
  Matching under \<open>re.IGNORECASE\<close> on \<open>str\<close> patterns compares simple case mappings; for the
  ASCII letters and classes of the source this adds, beyond the other case of each
  letter, the four characters U+0130, U+0131 (with \<open>i\<close>), U+017F (with \<open>s\<close>) and
  U+212A (with \<open>k\<close>).
\<close>

definition lower_cp :: "nat \<Rightarrow> nat" where
  "lower_cp c =
     (if is_upper_az c then c + 32
      else if c = 304 \<or> c = 305 then 105
      else if c = 383 then 115
      else if c = 8490 then 107
      else c)"

definition upper_cp :: "nat \<Rightarrow> nat" where
  "upper_cp c = (if is_lower_az (lower_cp c) then lower_cp c - 32 else c)"

definition icase :: "(nat \<Rightarrow> bool) \<Rightarrow> nat \<Rightarrow> bool" where
  "icase p c \<longleftrightarrow> p c \<or> p (lower_cp c) \<or> p (upper_cp c)"

definition chr :: "nat \<Rightarrow> rx" where
  "chr k = Cls (\<lambda>c. c = k)"

definition lit :: "string \<Rightarrow> rx" where
  "lit s = seqs (map (\<lambda>k. Cls (\<lambda>c. c = k)) (ustr s))"

definition lit_i :: "string \<Rightarrow> rx" where
  "lit_i s = seqs (map (\<lambda>k. Cls (icase (\<lambda>c. c = k))) (ustr s))"

text \<open>\<open>pat.match(s)\<close>: the matched text, the groups and the unread rest.\<close>

definition re_match :: "rx \<Rightarrow> pystr \<Rightarrow> (pystr \<times> caps \<times> pystr) option" where
  "re_match r s =
     (case ms r s [] of [] \<Rightarrow> None
      | (s', c) # _ \<Rightarrow> Some (take (length s - length s') s, c, s'))"

text \<open>\<open>pat.search(s)\<close>: the match at the leftmost position that has one.\<close>

fun re_search :: "rx \<Rightarrow> pystr \<Rightarrow> (pystr \<times> caps \<times> pystr) option" where
  "re_search r [] = re_match r []"
| "re_search r (x # xs) =
     (case re_match r (x # xs) of Some m \<Rightarrow> Some m | None \<Rightarrow> re_search r xs)"

text \<open>\<open>pat.fullmatch(s)\<close>: the first way of matching that reads all of \<open>s\<close>.\<close>

definition re_fullmatch :: "rx \<Rightarrow> pystr \<Rightarrow> bool" where
  "re_fullmatch r s \<longleftrightarrow> list_ex (\<lambda>(s', c). s' = []) (ms r s [])"

text \<open>
  \<open>pat.sub(repl, s)\<close> for a literal \<open>repl\<close>, \<open>pat.findall(s)\<close> for a pattern without
  groups (also the texts of \<open>pat.finditer(s)\<close>), and \<open>pat.split(s)\<close>: the scan goes left
  to right, and after a match it continues where the match ended. After an empty match
  the scan moves one character on (Python 3.7 and later).
\<close>

fun re_sub :: "rx \<Rightarrow> pystr \<Rightarrow> pystr \<Rightarrow> pystr" where
  "re_sub r repl s =
     (case ms r s [] of
        [] \<Rightarrow> (case s of [] \<Rightarrow> [] | x # xs \<Rightarrow> x # re_sub r repl xs)
      | (s', c) # _ \<Rightarrow>
          if length s' < length s then repl @ re_sub r repl s'
          else repl @ (case s of [] \<Rightarrow> [] | x # xs \<Rightarrow> x # re_sub r repl xs))"

fun re_findall :: "rx \<Rightarrow> pystr \<Rightarrow> pystr list" where
  "re_findall r s =
     (case ms r s [] of
        [] \<Rightarrow> (case s of [] \<Rightarrow> [] | x # xs \<Rightarrow> re_findall r xs)
      | (s', c) # _ \<Rightarrow>
          if length s' < length s then take (length s - length s') s # re_findall r s'
          else [] # (case s of [] \<Rightarrow> [] | x # xs \<Rightarrow> re_findall r xs))"

declare re_sub.simps [simp del] re_findall.simps [simp del]

text \<open>\<open>m.group(n)\<close>\<close>

definition group :: "caps \<Rightarrow> nat \<Rightarrow> pystr" where
  "group c n = (case map_of c n of Some t \<Rightarrow> t | None \<Rightarrow> [])"

text \<open>
  \<open>pat.split(s)\<close>: the texts between the matches, and after each match the texts of the
  groups \<open>gs\<close> of the pattern. The separators of the source never match the empty
  string; on an empty match the scan moves on as if there were none.
\<close>

fun re_split_go :: "rx \<Rightarrow> nat list \<Rightarrow> pystr \<Rightarrow> pystr \<Rightarrow> pystr list" where
  "re_split_go r gs acc s =
     (case ms r s [] of
        [] \<Rightarrow> (case s of [] \<Rightarrow> [rev acc] | x # xs \<Rightarrow> re_split_go r gs (x # acc) xs)
      | (s', c) # _ \<Rightarrow>
          if length s' < length s then rev acc # map (group c) gs @ re_split_go r gs [] s'
          else (case s of [] \<Rightarrow> [rev acc] | x # xs \<Rightarrow> re_split_go r gs (x # acc) xs))"

declare re_split_go.simps [simp del]

definition re_split :: "rx \<Rightarrow> nat list \<Rightarrow> pystr \<Rightarrow> pystr list" where
  "re_split r gs s = re_split_go r gs [] s"

section \<open>Email ranking and filtering\<close>

text \<open>\<^verbatim>\<open>ACADEMIC_EMAIL_PREF\<close>:
  \<^verbatim>\<open>\.(edu(\.[a-z]{2})?|ac(\.[a-z]{2})?|edu\.[a-z]{2,}|ac\.[a-z]{2,}|cn|org)$\<close> with \<open>re.I\<close>.
  Its groups are never read, so they are not numbered.\<close>

definition ACADEMIC_EMAIL_PREF :: rx where
  "ACADEMIC_EMAIL_PREF =
     (let az = icase is_lower_az; dot = chr (ord CHR ''.'') in
      seqs [dot,
        alts [Seq (lit_i ''edu'') (Opt (Seq dot (times 2 az))),
              Seq (lit_i ''ac'') (Opt (Seq dot (times 2 az))),
              seqs [lit_i ''edu'', dot, times 2 az, Star az],
              seqs [lit_i ''ac'', dot, times 2 az, Star az],
              lit_i ''cn'',
              lit_i ''org''],
        Eos])"

definition GENERIC_EMAIL_USERS :: "pystr list" where
  "GENERIC_EMAIL_USERS = map ustr
     [''info'', ''contact'', ''office'', ''admissions'', ''apply'', ''enquiry'', ''enquiries'',
      ''inquiries'', ''inquiry'', ''press'', ''media'', ''pr'', ''marketing'', ''outreach'',
      ''external'', ''international'', ''webmaster'', ''noreply'', ''no-reply'', ''admin'',
      ''administrator'', ''root'', ''support'', ''help'', ''service'', ''services'', ''career'',
      ''careers'', ''hr'', ''jobs'', ''recruit'', ''recruitment'', ''news'', ''events'', ''alumni'',
      ''oic'', ''promote'', ''postmaster'', ''security'', ''abuse'', ''secretary'', ''office-of'',
      ''frontdesk'', ''student'', ''students'', ''library'', ''postgrad'', ''undergrad'']"

definition PERSONAL_FREE_DOMAINS :: "pystr list" where
  "PERSONAL_FREE_DOMAINS = map ustr
     [''gmail.com'', ''outlook.com'', ''hotmail.com'', ''yahoo.com'', ''yahoo.co.uk'', ''proton.me'',
      ''icloud.com'', ''qq.com'', ''163.com'', ''126.com'', ''yeah.net'']"

definition name_affinity :: "unicode \<Rightarrow> pystr \<Rightarrow> pystr \<Rightarrow> int" where
  "name_affinity U name local_part =
     (let tokens = map (py_lower U) (re_findall (Plus (\<lambda>c. is_upper_az c \<or> is_lower_az c)) name);
          local = py_lower U local_part
      in int (length (filter (\<lambda>t. length t \<ge> 2 \<and> (py_in t local \<or> py_in local t)) tokens)))"

definition is_academic_domain :: "unicode \<Rightarrow> pystr \<Rightarrow> bool" where
  "is_academic_domain U domain \<longleftrightarrow>
     re_search ACADEMIC_EMAIL_PREF (ustr ''.'' @ py_lower U domain) \<noteq> None"

definition email_is_generic :: "unicode \<Rightarrow> pystr \<Rightarrow> bool" where
  "email_is_generic U local \<longleftrightarrow>
     (let l = py_lower U local in
      l \<in> set GENERIC_EMAIL_USERS \<or>
      startswith l (ustr ''no-reply'') \<or> startswith l (ustr ''noreply'') \<or>
      startswith l (ustr ''postmaster''))"

definition email_allowed :: "unicode \<Rightarrow> pystr \<Rightarrow> pystr \<Rightarrow> bool" where
  "email_allowed U email site_regdom \<longleftrightarrow>
     (if \<not> py_in (ustr ''@'') email then False
      else case split_once (ord CHR ''@'') email of
        None \<Rightarrow> False
      | Some (local, domain) \<Rightarrow>
          let dl = py_lower U domain; ll = py_lower U local in
          if email_is_generic U ll then False
          else if dl \<in> set PERSONAL_FREE_DOMAINS then False
          else
            let same_regdom =
                  (site_regdom \<noteq> [] \<and> (dl = site_regdom \<or> endswith dl (ustr ''.'' @ site_regdom)))
            in if same_regdom then True
               else is_academic_domain U dl)"

text \<open>The ranking key of \<open>pick_best_email\<close>; Python compares the tuples lexicographically,
  and a lower key is better.\<close>

type_synonym rank_key = "int \<times> int \<times> int \<times> int"

definition rank_key :: "unicode \<Rightarrow> pystr \<Rightarrow> pystr \<Rightarrow> pystr \<Rightarrow> pystr \<Rightarrow> rank_key" where
  "rank_key U name site_regdom local domain =
     (let same_domain =
            (if site_regdom \<noteq> []
             then (if py_lower U domain = site_regdom \<or>
                      endswith (py_lower U domain) (ustr ''.'' @ site_regdom)
                   then 1 else 0)
             else (0::int));
          academic = (if is_academic_domain U domain then 1 else (0::int));
          aff = name_affinity U name local;
          length_penalty = min (int (length local)) 20
      in (- same_domain, - academic, - aff, length_penalty))"

fun pick_loop ::
  "unicode \<Rightarrow> pystr \<Rightarrow> pystr \<Rightarrow> pystr list \<Rightarrow> pystr \<Rightarrow> rank_key option \<Rightarrow> pystr" where
  "pick_loop U name site_regdom [] best best_key = best"
| "pick_loop U name site_regdom (e # es) best best_key =
     (if \<not> py_in (ustr ''@'') e then pick_loop U name site_regdom es best best_key
      else case split_once (ord CHR ''@'') e of
        None \<Rightarrow> pick_loop U name site_regdom es best best_key
      | Some (local, domain) \<Rightarrow>
          if \<not> email_allowed U e site_regdom then pick_loop U name site_regdom es best best_key
          else
            let key = rank_key U name site_regdom local domain in
            (case best_key of
               None \<Rightarrow> pick_loop U name site_regdom es e (Some key)
             | Some bk \<Rightarrow>
                 if key < bk then pick_loop U name site_regdom es e (Some key)
                 else pick_loop U name site_regdom es best best_key))"

definition pick_best_email :: "unicode \<Rightarrow> pystr \<Rightarrow> pystr list \<Rightarrow> pystr \<Rightarrow> pystr" where
  "pick_best_email U name emails site_regdom = pick_loop U name site_regdom emails [] None"

declare pick_loop.simps(2) [simp del]

text \<open>The key that \<open>pick_best_email\<close> gives the candidate \<open>e\<close>. Candidates without \<open>@\<close> are
  skipped before a key is computed; the last case only makes the function total.\<close>

definition email_key :: "unicode \<Rightarrow> pystr \<Rightarrow> pystr \<Rightarrow> pystr \<Rightarrow> rank_key" where
  "email_key U name site_regdom e =
     (case split_once (ord CHR ''@'') e of
        Some (local, domain) \<Rightarrow> rank_key U name site_regdom local domain
      | None \<Rightarrow> (0, 0, 0, 0))"

text \<open>An instance of the Unicode parameters, for evaluating on ASCII inputs (where the
  parameters are not consulted).\<close>

definition ascii_unicode :: unicode where
  "ascii_unicode = \<lparr> lower_ext = (\<lambda>s. s), alnum_ext = (\<lambda>c. False) \<rparr>"


section \<open>Email extraction\<close>

text \<open>\<^verbatim>\<open>BASIC_EMAIL_RE\<close>: \<^verbatim>\<open>[A-Z0-9._%+-]+@[A-Z0-9.-]+\.[A-Z]{2,24}\<close> with \<open>re.I\<close>.\<close>

definition BASIC_EMAIL_RE :: rx where
  "BASIC_EMAIL_RE =
     seqs [Plus (icase (\<lambda>c. is_upper_az c \<or> is_digit09 c \<or> one_of ''._%+-'' c)),
           chr (ord CHR ''@''),
           Plus (icase (\<lambda>c. is_upper_az c \<or> is_digit09 c \<or> one_of ''.-'' c)),
           chr (ord CHR ''.''),
           times 2 (icase is_upper_az), upto 22 (icase is_upper_az)]"

text \<open>\<^verbatim>\<open>EMAIL_TOKEN_PATTERNS\<close>, in the order of the source. The full-width commercial at is
  U+FF20, the full-width parentheses are U+FF08 and U+FF09, the ideograph of the sixth
  pattern is U+70B9.\<close>

definition EMAIL_TOKEN_PATTERNS :: "(rx \<times> pystr) list" where
  "EMAIL_TOKEN_PATTERNS =
     (let sp = Star is_space; c = (\<lambda>x. chr (ord x)) in
      [(seqs [sp, Opt (c CHR ''[''), sp, lit_i ''at'', sp, Opt (c CHR '']''), sp], ustr ''@''),
       (seqs [sp, Opt (c CHR ''(''), sp, lit_i ''at'', sp, Opt (c CHR '')''), sp], ustr ''@''),
       (seqs [sp, chr 65312, sp], ustr ''@''),
       (seqs [sp, Opt (c CHR ''[''), sp, c CHR ''#'', sp, Opt (c CHR '']''), sp], ustr ''@''),
       (alts [seqs [sp, c CHR ''('', sp, lit_i ''dot'', sp, c CHR '')''],
              seqs [c CHR ''['', sp, lit_i ''dot'', sp, c CHR '']''],
              seqs [c CHR ''{'', sp, lit_i ''dot'', sp, c CHR ''}'']], ustr ''.''),
       (seqs [Opt (Cls (\<lambda>x. x = 65288 \<or> x = ord CHR '')'')), chr 28857,
              Opt (Cls (\<lambda>x. x = 65289 \<or> x = ord CHR '')''))], ustr ''.''),
       (seqs [Plus is_space, lit_i ''dot'', Plus is_space], ustr ''.''),
       (seqs [Plus is_space, lit_i ''at'', Plus is_space], ustr ''@''),
       (alts [seqs [sp, lit_i ''(remove)''],
              seqs [lit_i ''(no'', sp, lit_i ''spam)'']], ustr '''')])"

text \<open>The rewriting part of \<open>normalize_email\<close>: the substitutions of
  \<^verbatim>\<open>EMAIL_TOKEN_PATTERNS\<close> in order, then the literal replacements.\<close>

definition deobfuscate :: "pystr \<Rightarrow> pystr" where
  "deobfuscate text =
     (let s = foldl (\<lambda>s (pat, repl). re_sub pat repl s) text EMAIL_TOKEN_PATTERNS;
          s = py_replace [65289] (ustr '')'') (py_replace [65288] (ustr ''('') s);
          s = py_replace (ustr ''{dot}'') (ustr ''.'')
                (py_replace (ustr ''[dot]'') (ustr ''.'')
                  (py_replace (ustr ''{at}'') (ustr ''@'')
                    (py_replace (ustr ''[at]'') (ustr ''@'') s)))
      in s)"

text \<open>
  A text is free of obfuscation tokens when none of the \<^verbatim>\<open>EMAIL_TOKEN_PATTERNS\<close> matches
  anywhere in it and none of the literals replaced by \<open>normalize_email\<close> occurs in it.
\<close>

definition token_free :: "pystr \<Rightarrow> bool" where
  "token_free s \<longleftrightarrow>
     list_all (\<lambda>(pat, repl). re_search pat s = None) EMAIL_TOKEN_PATTERNS \<and>
     list_all (\<lambda>old. \<not> py_in old s)
       [[65288], [65289], ustr ''[at]'', ustr ''{at}'', ustr ''[dot]'', ustr ''{dot}'']"

text \<open>The \<open>re\<close> class \<open>\w\<close>.\<close>

definition is_word :: "unicode \<Rightarrow> nat \<Rightarrow> bool" where
  "is_word U c \<longleftrightarrow>
     (if c < 128 then is_upper_az c \<or> is_lower_az c \<or> is_digit09 c \<or> c = ord CHR ''_''
      else alnum_ext U c)"

text \<open>The two patterns that \<open>normalize_email\<close> uses for an address whose \<open>@\<close> or dots were
  written as spaces:
  \<^verbatim>\<open>([A-Za-z0-9._%+-]+)\s+([A-Za-z0-9.-]+\.[A-Za-z]{2,24})\<close> and, with \<open>re.I\<close>,
  \<^verbatim>\<open>([A-Za-z0-9._%+-]+)\s+(([A-Za-z0-9-]+)\s+(edu|ac|com|org|cn|uk|de|fr|jp|kr)(\s+\w{2})?)\<close>.\<close>

definition SPACED_DOMAIN_RE :: rx where
  "SPACED_DOMAIN_RE =
     (let az = (\<lambda>c. is_upper_az c \<or> is_lower_az c) in
      seqs [Grp 1 (Plus (\<lambda>c. az c \<or> is_digit09 c \<or> one_of ''._%+-'' c)),
            Plus is_space,
            Grp 2 (seqs [Plus (\<lambda>c. az c \<or> is_digit09 c \<or> one_of ''.-'' c),
                         chr (ord CHR ''.''), times 2 az, upto 22 az])])"

definition SPACED_TLD_RE :: "unicode \<Rightarrow> rx" where
  "SPACED_TLD_RE U =
     (let az = (\<lambda>c. is_upper_az c \<or> is_lower_az c) in
      seqs [Grp 1 (Plus (icase (\<lambda>c. az c \<or> is_digit09 c \<or> one_of ''._%+-'' c))),
            Plus is_space,
            Grp 2 (seqs [Grp 3 (Plus (icase (\<lambda>c. az c \<or> is_digit09 c \<or> c = ord CHR ''-''))),
                         Plus is_space,
                         Grp 4 (alts (map lit_i [''edu'', ''ac'', ''com'', ''org'', ''cn'', ''uk'',
                                                  ''de'', ''fr'', ''jp'', ''kr''])),
                         Opt (Grp 5 (Seq (Plus is_space) (times 2 (is_word U))))])])"

definition normalize_email :: "unicode \<Rightarrow> pystr \<Rightarrow> pystr option" where
  "normalize_email U text =
     (if text = [] then None
      else
        let s = deobfuscate text in
        case re_search BASIC_EMAIL_RE s of
          Some (m, _) \<Rightarrow> Some m
        | None \<Rightarrow>
           (let r2 = (case re_search SPACED_DOMAIN_RE s of
                        Some (_, c, _) \<Rightarrow>
                          let cand = group c 1 @ ustr ''@'' @ group c 2 in
                          if re_fullmatch BASIC_EMAIL_RE cand then Some cand else None
                      | None \<Rightarrow> None)
            in (case r2 of
              Some cand \<Rightarrow> Some cand
            | None \<Rightarrow>
                (case re_search (SPACED_TLD_RE U) s of
                   Some (_, c, _) \<Rightarrow>
                     let parts = re_findall
                           (Plus (\<lambda>c. is_upper_az c \<or> is_lower_az c \<or> is_digit09 c \<or> c = ord CHR ''-''))
                           (group c 2);
                         domain = (if length parts \<ge> 2
                                   then py_join (ustr ''.'') (drop (length parts - 3) parts)
                                   else py_replace (ustr '' '') (ustr ''.'') (group c 2));
                         cand = group c 1 @ ustr ''@'' @ domain
                     in if re_fullmatch BASIC_EMAIL_RE cand then Some cand else None
                 | None \<Rightarrow> None))))"

text \<open>The order-preserving removal of duplicates at the end of \<open>extract_emails\<close>.\<close>

fun uniq :: "pystr list \<Rightarrow> pystr list \<Rightarrow> pystr list" where
  "uniq seen [] = []"
| "uniq seen (e # es) = (if e \<in> set seen then uniq seen es else e # uniq (e # seen) es)"

text \<open>An \<open>if e:\<close> on an optional string: \<open>None\<close> and the empty string are skipped.\<close>

definition truthy :: "pystr option \<Rightarrow> pystr list" where
  "truthy e = (case e of None \<Rightarrow> [] | Some t \<Rightarrow> if t = [] then [] else [t])"

definition extract_emails :: "unicode \<Rightarrow> pystr \<Rightarrow> pystr list" where
  "extract_emails U text =
     (if text = [] then []
      else
        let candidates = re_findall BASIC_EMAIL_RE text;
            tokens = re_split (Plus (\<lambda>c. is_space c \<or> one_of '',;|/<>'' c)) [] text;
            candidates = candidates @ concat (map (\<lambda>tok. truthy (normalize_email U tok)) tokens);
            words = re_split (Grp 1 (Plus is_space)) [1] text;
            candidates = candidates @
              concat (map (\<lambda>i. truthy (normalize_email U (concat (take 5 (drop i words)))))
                          [0 ..< length words - 4])
        in uniq [] candidates)"

section \<open>Documents\<close>

text \<open>
  The source reads pages through BeautifulSoup. The parsed document is not modelled: an
  anchor is what the source reads from an \<open>a\<close> element, \<open>a.get("href")\<close> and
  \<open>a.get_text(" ", strip=True)\<close>, and the selections made on a document are parameters
  (see \<open>env\<close> below).
\<close>

record anchor =
  href :: "pystr option"
  get_text :: pystr

text \<open>\<open>a.get("href") or ""\<close>; an \<open>if a.get("href")\<close> tests that it is not empty.\<close>

definition href_or_empty :: "anchor \<Rightarrow> pystr" where
  "href_or_empty a = (case href a of None \<Rightarrow> [] | Some h \<Rightarrow> h)"

text \<open>\<^verbatim>\<open>TRAIL_CLEAN\<close>: a run of white space and of the punctuation marks U+FF0C, comma,
  U+FF1B, semicolon, U+3002, U+3001 at the end of the string.\<close>

definition TRAIL_CLEAN :: rx where
  "TRAIL_CLEAN =
     Seq (Plus (\<lambda>c. c = 65292 \<or> c = 44 \<or> c = 65307 \<or> c = 59 \<or> c = 12290 \<or> c = 12289 \<or> is_space c))
         Eos"

definition strip_trailing_punct :: "pystr \<Rightarrow> pystr" where
  "strip_trailing_punct s = (if s = [] then s else re_sub TRAIL_CLEAN [] (py_strip s))"

text \<open>\<open>text_of\<close> on an element whose \<open>get_text(" ", strip=True)\<close> is \<open>t\<close>: a mis-decoded
  full-width colon is repaired, runs of white space become one space.\<close>

definition text_of_str :: "pystr \<Rightarrow> pystr" where
  "text_of_str t =
     (let t = py_replace [239, 188, 353] [65306] t
      in strip_trailing_punct (re_sub (Plus is_space) (ustr '' '') t))"

definition text_of :: "anchor \<Rightarrow> pystr" where
  "text_of el = text_of_str (get_text el)"

text \<open>A dictionary made by \<open>discover_profiles\<close>, with its keys \<open>name\<close> and \<open>profile_url\<close>.\<close>

record link =
  link_name :: pystr
  link_profile_url :: pystr

text \<open>A dictionary appended to \<open>results\<close> by \<open>process_site\<close>.\<close>

record site_row =
  r_name :: pystr
  r_school :: pystr
  r_research_area :: pystr
  r_email :: pystr
  r_phone :: pystr
  r_profile_url :: pystr

text \<open>A dictionary appended to \<open>rows\<close> by \<open>scrape_sites\<close>.\<close>

record row =
  row_university :: pystr
  row_school :: pystr
  row_name :: pystr
  row_email :: pystr
  row_phone :: pystr
  row_research_area :: pystr
  row_profile_url :: pystr

section \<open>The environment\<close>

text \<open>
  What the source obtains from outside is a parameter. The network client and the
  translator act on a world of type \<open>'w\<close>, which they read and change: \<open>allowed_by_robots\<close>,
  \<open>fetch\<close> (\<open>None\<close> is Python's \<open>None\<close>) and \<open>translate\<close>. The other fields are functions of
  their arguments: \<open>registered_domain\<close> and \<open>infer_university_from_url\<close> (through
  tldextract), \<open>urljoin\<close>, and what is selected from the document parsed from a page:
  \<open>discover_profiles\<close>, \<open>select_rel_next\<close> for \<open>soup.select_one("a[rel=next]")\<close>, \<open>find_all_a\<close>
  for \<open>soup.find_all("a")\<close>, \<open>select_mailto\<close> for \<open>soup.select("a[href^=mailto]")\<close>,
  \<open>extract_name\<close>, \<open>extract_school\<close>, \<open>extract_research_area\<close>, \<open>get_main_text\<close>; and
  \<open>extract_phones\<close>, whose patterns use look-behind.
\<close>

record 'w env =
  registered_domain :: "pystr \<Rightarrow> pystr"
  infer_university_from_url :: "pystr \<Rightarrow> pystr"
  urljoin :: "pystr \<Rightarrow> pystr \<Rightarrow> pystr"
  allowed_by_robots :: "pystr \<Rightarrow> 'w \<Rightarrow> bool \<times> 'w"
  fetch :: "pystr \<Rightarrow> 'w \<Rightarrow> pystr option \<times> 'w"
  translate :: "pystr \<Rightarrow> 'w \<Rightarrow> pystr \<times> 'w"
  discover_profiles :: "pystr \<Rightarrow> pystr \<Rightarrow> link list"
  select_rel_next :: "pystr \<Rightarrow> anchor option"
  find_all_a :: "pystr \<Rightarrow> anchor list"
  select_mailto :: "pystr \<Rightarrow> anchor list"
  extract_name :: "pystr \<Rightarrow> pystr"
  extract_school :: "pystr \<Rightarrow> pystr"
  extract_research_area :: "pystr \<Rightarrow> pystr"
  get_main_text :: "pystr \<Rightarrow> pystr"
  extract_phones :: "pystr \<Rightarrow> pystr list"

section \<open>Pagination\<close>

definition MAX_PAGINATION_PAGES :: nat where
  "MAX_PAGINATION_PAGES = 20"

definition NEXT_TEXTS :: "pystr list" where
  "NEXT_TEXTS =
     [[19979, 19968, 39029], [19979, 39029], [19979, 19968, 38913], ustr ''Next'', ustr ''next'',
      [8250], [187], ustr ''>'', [21518, 19968, 39029], [19979, 19968, 20010], ustr ''More'',
      ustr ''Older'']"

text \<open>The pattern of \<open>find_next_page\<close>: the first three of \<^verbatim>\<open>NEXT_TEXTS\<close>, then
  \<^verbatim>\<open>Next|\<close>U+203A U+203A\<^verbatim>\<open>|>>|More\<close>.\<close>

definition NEXT_TEXT_RE :: rx where
  "NEXT_TEXT_RE =
     alts [seqs (map chr [19979, 19968, 39029]), seqs (map chr [19979, 39029]),
           seqs (map chr [19979, 19968, 38913]), lit ''Next'', seqs (map chr [8250, 8250]),
           lit ''>>'', lit ''More'']"

definition is_next_text :: "pystr \<Rightarrow> bool" where
  "is_next_text txt \<longleftrightarrow> txt \<in> set NEXT_TEXTS \<or> re_fullmatch NEXT_TEXT_RE txt"

text \<open>The loop of \<open>find_next_page\<close> over \<open>soup.find_all("a")\<close>.\<close>

fun scan_links :: "'w env \<Rightarrow> pystr \<Rightarrow> anchor list \<Rightarrow> pystr option" where
  "scan_links E base_url [] = None"
| "scan_links E base_url (link # links) =
     (if is_next_text (text_of link) \<and> href_or_empty link \<noteq> []
      then Some (urljoin E base_url (href_or_empty link))
      else scan_links E base_url links)"

definition find_next_page :: "'w env \<Rightarrow> pystr \<Rightarrow> pystr \<Rightarrow> pystr option" where
  "find_next_page E listing_html base_url =
     (case select_rel_next E listing_html of
        Some a \<Rightarrow>
          if href_or_empty a \<noteq> [] then Some (urljoin E base_url (href_or_empty a))
          else scan_links E base_url (find_all_a E listing_html)
      | None \<Rightarrow> scan_links E base_url (find_all_a E listing_html))"

section \<open>Profile pages\<close>

definition looks_like_human_name :: "pystr \<Rightarrow> bool" where
  "looks_like_human_name name \<longleftrightarrow>
     (if name = [] then False
      else if re_search (alts (map lit_i [''About'', ''Home'', ''Team'', ''List'', ''Search'', ''Hot'',
                                           ''Institutions'', ''Laboratories'', ''Page''])) name \<noteq> None
      then False
      else if re_search (alts [lit_i ''@'', lit_i ''.com'', lit_i ''.edu'', lit_i ''.cn'']) name \<noteq> None
      then False
      else if re_search (Cls (\<lambda>c. 19968 \<le> c \<and> c \<le> 40959)) name \<noteq> None then True
      else let tokens = re_findall (Plus (\<lambda>c. is_upper_az c \<or> is_lower_az c)) name
           in length tokens \<ge> 2 \<and> length (concat tokens) \<ge> 3)"

text \<open>The text that \<open>parse_profile\<close> searches for addresses: for each \<open>mailto\<close> anchor its
  \<open>href\<close> and its text, then the main text of the page, the non-empty ones joined by
  newlines.\<close>

definition profile_text :: "'w env \<Rightarrow> pystr \<Rightarrow> pystr" where
  "profile_text E profile_html =
     (let texts = concat (map (\<lambda>a. [href_or_empty a, text_of a]) (select_mailto E profile_html))
                  @ [get_main_text E profile_html]
      in py_join [10] (filter (\<lambda>t. t \<noteq> []) texts))"

definition parse_profile ::
  "unicode \<Rightarrow> 'w env \<Rightarrow> pystr \<Rightarrow> pystr \<Rightarrow> pystr \<Rightarrow> pystr \<times> pystr \<times> pystr \<times> pystr \<times> pystr" where
  "parse_profile U E profile_html base_url site_regdom =
     (let name = strip_trailing_punct (extract_name E profile_html) in
      if \<not> looks_like_human_name name then ([], [], [], [], [])
      else
        let school = strip_trailing_punct (extract_school E profile_html);
            research = strip_trailing_punct (extract_research_area E profile_html);
            full = profile_text E profile_html;
            emails_raw = extract_emails U full;
            email = pick_best_email U name emails_raw site_regdom
        in if email = [] then ([], [], [], [], [])
           else
             let phones = extract_phones E full;
                 phone = (case phones of [] \<Rightarrow> [] | ph # _ \<Rightarrow> ph)
             in (name, school, research, email, phone))"

section \<open>The crawl of one site\<close>

text \<open>
  The state of \<open>process_site\<close>: the \<open>results\<close> list, the \<open>visited\<close> set, the world, and the
  record of the calls of \<open>client.fetch\<close> in the order they were made, each marked with the
  place of the call: a listing page or a profile page. The messages written to
  \<open>progress\<close> are left out.
\<close>

datatype event = Listing pystr | Profile pystr

text \<open>The pages requested as listings and as profiles, in the order of the requests.\<close>

fun listing_urls :: "event list \<Rightarrow> pystr list" where
  "listing_urls [] = []"
| "listing_urls (Listing u # evs) = u # listing_urls evs"
| "listing_urls (Profile u # evs) = listing_urls evs"

fun profile_urls :: "event list \<Rightarrow> pystr list" where
  "profile_urls [] = []"
| "profile_urls (Listing u # evs) = profile_urls evs"
| "profile_urls (Profile u # evs) = u # profile_urls evs"

record 'w pstate =
  results :: "site_row list"
  visited :: "pystr set"
  world :: 'w
  events :: "event list"

definition client_allowed :: "'w env \<Rightarrow> pystr \<Rightarrow> 'w pstate \<Rightarrow> bool \<times> 'w pstate" where
  "client_allowed E url st =
     (let (ok, w) = allowed_by_robots E url (world st) in (ok, st\<lparr>world := w\<rparr>))"

definition client_fetch :: "'w env \<Rightarrow> event \<Rightarrow> pystr \<Rightarrow> 'w pstate \<Rightarrow> pystr option \<times> 'w pstate" where
  "client_fetch E ev url st =
     (let (html, w) = fetch E url (world st) in (html, st\<lparr>world := w, events := events st @ [ev]\<rparr>))"

text \<open>\<open>max_profiles is not None and len(xs) >= max_profiles\<close>\<close>

definition reached :: "int option \<Rightarrow> 'a list \<Rightarrow> bool" where
  "reached max_profiles xs = (case max_profiles of None \<Rightarrow> False | Some m \<Rightarrow> int (length xs) \<ge> m)"

text \<open>\<open>if not html\<close> on an optional string\<close>

definition falsy :: "pystr option \<Rightarrow> bool" where
  "falsy h = (case h of None \<Rightarrow> True | Some t \<Rightarrow> t = [])"

text \<open>
  The \<open>for p in discovered\<close> loop. The first component of the value tells whether the
  loop left \<open>process_site\<close> by \<open>return results\<close>.
\<close>

fun profiles_loop ::
  "unicode \<Rightarrow> 'w env \<Rightarrow> int option \<Rightarrow> pystr \<Rightarrow> pystr \<Rightarrow> link list \<Rightarrow> 'w pstate \<Rightarrow> bool \<times> 'w pstate" where
  "profiles_loop U E max_profiles site_regdom next_url [] st = (False, st)"
| "profiles_loop U E max_profiles site_regdom next_url (p # ps) st =
     (if reached max_profiles (results st) then (True, st)
      else
        let prof_url = (if link_profile_url p = [] then next_url else link_profile_url p) in
        if prof_url \<in> visited st then profiles_loop U E max_profiles site_regdom next_url ps st
        else
          let st = st\<lparr>visited := insert prof_url (visited st)\<rparr>;
              (ok, st) = client_allowed E prof_url st in
          if \<not> ok then profiles_loop U E max_profiles site_regdom next_url ps st
          else
            let (ph, st) = client_fetch E (Profile prof_url) prof_url st in
            if falsy ph then profiles_loop U E max_profiles site_regdom next_url ps st
            else
              let (name, school, research, email, phone) =
                    parse_profile U E (the ph) prof_url site_regdom in
              if email = [] then profiles_loop U E max_profiles site_regdom next_url ps st
              else
                let st = st\<lparr>results := results st @
                           [\<lparr>r_name = (if name = [] then link_name p else name), r_school = school,
                             r_research_area = research, r_email = email, r_phone = phone,
                             r_profile_url = prof_url\<rparr>]\<rparr>
                in if reached max_profiles (results st) then (True, st)
                   else profiles_loop U E max_profiles site_regdom next_url ps st)"

text \<open>The \<open>while next_url and pages < MAX_PAGINATION_PAGES\<close> loop.\<close>

function pages_loop ::
  "unicode \<Rightarrow> 'w env \<Rightarrow> int option \<Rightarrow> pystr \<Rightarrow> nat \<Rightarrow> pystr \<Rightarrow> 'w pstate \<Rightarrow> 'w pstate" where
  "pages_loop U E max_profiles site_regdom pages next_url st =
     (if next_url \<noteq> [] \<and> pages < MAX_PAGINATION_PAGES then
        let (ok, st) = client_allowed E next_url st in
        if \<not> ok then st
        else
          let (html, st) = client_fetch E (Listing next_url) next_url st in
          if falsy html then st
          else
            let discovered = discover_profiles E (the html) next_url;
                (returned, st) = profiles_loop U E max_profiles site_regdom next_url discovered st
            in if returned then st
               else (case find_next_page E (the html) next_url of
                       None \<Rightarrow> st
                     | Some nxt \<Rightarrow>
                         if nxt = [] \<or> nxt = next_url then st
                         else pages_loop U E max_profiles site_regdom (pages + 1) nxt st)
      else st)"
  by pat_completeness auto
termination
  by (relation "measure (\<lambda>(U, E, max_profiles, site_regdom, pages, next_url, st).
                  MAX_PAGINATION_PAGES - pages)") auto

declare pages_loop.simps [simp del]

definition process_site :: "unicode \<Rightarrow> 'w env \<Rightarrow> pystr \<Rightarrow> int option \<Rightarrow> 'w \<Rightarrow> 'w pstate" where
  "process_site U E site_url max_profiles w =
     pages_loop U E max_profiles (registered_domain E site_url) 0 site_url
       \<lparr>results = [], visited = {}, world = w, events = []\<rparr>"

section \<open>The crawl of all sites\<close>

text \<open>\<open>needs_trans\<close>: \<^verbatim>\<open>[\\u0100-\\uFFFF]\<close> is found and \<^verbatim>\<open>[A-Za-z]{4,}\<close> is not.\<close>

definition needs_trans :: "pystr \<Rightarrow> bool" where
  "needs_trans s \<longleftrightarrow>
     re_search (Cls (\<lambda>c. 256 \<le> c \<and> c \<le> 65535)) s \<noteq> None \<and>
     re_search (Seq (times 4 (\<lambda>c. is_upper_az c \<or> is_lower_az c))
                    (Star (\<lambda>c. is_upper_az c \<or> is_lower_az c))) s = None"

definition maybe_translate :: "'w env \<Rightarrow> bool \<Rightarrow> pystr \<Rightarrow> 'w \<Rightarrow> pystr \<times> 'w" where
  "maybe_translate E translate_en s w =
     (if translate_en \<and> needs_trans s then translate E s w else (s, w))"

text \<open>The \<open>for r in site_rows\<close> loop, with its \<open>break\<close>.\<close>

fun rows_loop ::
  "'w env \<Rightarrow> bool \<Rightarrow> int option \<Rightarrow> pystr \<Rightarrow> site_row list \<Rightarrow> row list \<times> 'w \<Rightarrow> row list \<times> 'w" where
  "rows_loop E translate_en max_profiles uni [] (rows, w) = (rows, w)"
| "rows_loop E translate_en max_profiles uni (r # rs) (rows, w) =
     (let (name, w) = maybe_translate E translate_en (r_name r) w;
          (research, w) = maybe_translate E translate_en (r_research_area r) w;
          rows = rows @ [\<lparr>row_university = uni, row_school = r_school r, row_name = name,
                          row_email = r_email r, row_phone = r_phone r,
                          row_research_area = research, row_profile_url = r_profile_url r\<rparr>]
      in if reached max_profiles rows then (rows, w)
         else rows_loop E translate_en max_profiles uni rs (rows, w))"

text \<open>A site is crawled when, stripped, it is not empty and starts with \<open>http://\<close> or
  \<open>https://\<close> in any case.\<close>

definition site_ok :: "unicode \<Rightarrow> pystr \<Rightarrow> bool" where
  "site_ok U site \<longleftrightarrow>
     site \<noteq> [] \<and> (startswith (py_lower U site) (ustr ''http://'') \<or>
                   startswith (py_lower U site) (ustr ''https://''))"

text \<open>The \<open>for site in sites\<close> loop, with its \<open>break\<close>.\<close>

fun sites_loop ::
  "unicode \<Rightarrow> 'w env \<Rightarrow> pystr \<Rightarrow> int option \<Rightarrow> bool \<Rightarrow> pystr list \<Rightarrow> row list \<times> 'w \<Rightarrow> row list \<times> 'w" where
  "sites_loop U E uni_label max_profiles translate_en [] (rows, w) = (rows, w)"
| "sites_loop U E uni_label max_profiles translate_en (site # sites) (rows, w) =
     (let site = py_strip site in
      if \<not> site_ok U site then sites_loop U E uni_label max_profiles translate_en sites (rows, w)
      else
        let st = process_site U E site max_profiles w;
            uni = (if uni_label \<noteq> [] then uni_label else infer_university_from_url E site);
            (rows, w) = rows_loop E translate_en max_profiles uni (results st) (rows, world st)
        in if reached max_profiles rows then (rows, w)
           else sites_loop U E uni_label max_profiles translate_en sites (rows, w))"

text \<open>The key of the final removal of duplicates, and the removal.\<close>

definition dedup_key :: "unicode \<Rightarrow> row \<Rightarrow> pystr \<times> pystr" where
  "dedup_key U p = (py_lower U (row_name p), row_profile_url p)"

fun dedup :: "unicode \<Rightarrow> (pystr \<times> pystr) set \<Rightarrow> row list \<Rightarrow> row list" where
  "dedup U seen [] = []"
| "dedup U seen (p # ps) =
     (if dedup_key U p \<in> seen then dedup U seen ps
      else p # dedup U (insert (dedup_key U p) seen) ps)"

text \<open>The rows collected by \<open>scrape_sites\<close> before the removal of duplicates, and its
  result. The delays of the client belong to the environment.\<close>

definition collect_rows ::
  "unicode \<Rightarrow> 'w env \<Rightarrow> pystr list \<Rightarrow> pystr \<Rightarrow> int option \<Rightarrow> bool \<Rightarrow> 'w \<Rightarrow> row list \<times> 'w" where
  "collect_rows U E sites uni_label max_profiles translate_en w =
     sites_loop U E uni_label max_profiles translate_en sites ([], w)"

definition scrape_sites ::
  "unicode \<Rightarrow> 'w env \<Rightarrow> pystr list \<Rightarrow> pystr \<Rightarrow> int option \<Rightarrow> bool \<Rightarrow> 'w \<Rightarrow> row list" where
  "scrape_sites U E sites uni_label max_profiles translate_en w =
     dedup U {} (fst (collect_rows U E sites uni_label max_profiles translate_en w))"

section \<open>Invariants of the crawl\<close>

text \<open>Every page requested as a profile was requested once, and its address is in
  \<open>visited\<close>.\<close>

definition fetched_once :: "'w pstate \<Rightarrow> bool" where
  "fetched_once st \<longleftrightarrow>
     distinct (profile_urls (events st)) \<and> set (profile_urls (events st)) \<subseteq> visited st"

text \<open>
  An address kept for a profile page: it is not empty, it passes \<open>email_allowed\<close> for the
  registrable domain of the site, and it is the address that \<open>parse_profile\<close> returns for
  some page at that profile address. A row is accepted when its address is kept for one
  of the sites that are crawled.
\<close>

definition kept :: "unicode \<Rightarrow> 'w env \<Rightarrow> pystr \<Rightarrow> pystr \<Rightarrow> pystr \<Rightarrow> bool" where
  "kept U E site_regdom email profile_url \<longleftrightarrow>
     email \<noteq> [] \<and> email_allowed U email site_regdom \<and>
     (\<exists>html name school research phone.
        parse_profile U E html profile_url site_regdom = (name, school, research, email, phone))"

definition accepted :: "unicode \<Rightarrow> 'w env \<Rightarrow> pystr list \<Rightarrow> row \<Rightarrow> bool" where
  "accepted U E sites x \<longleftrightarrow>
     (\<exists>site\<in>set sites. site_ok U (py_strip site) \<and>
        kept U E (registered_domain E (py_strip site)) (row_email x) (row_profile_url x))"



section \<open>An example site\<close>

text \<open>
  A site of two listing pages and three profile pages, for evaluating the crawl. The
  first listing links to the profiles of Ann Lee and Bob Ray and has a \<open>rel=next\<close> link
  to the second; the second links to Ann Lee again and to Carl Orff, and its \<open>Next\<close> link
  points to the second listing itself. Bob Ray's page shows a free-mail address only.
  All links are absolute, so \<open>urljoin\<close> returns its second argument. The world counts the
  requests.
\<close>

definition demo_env :: "nat env" where
  "demo_env =
     \<lparr>registered_domain = (\<lambda>url. ustr ''example.edu''),
      infer_university_from_url = (\<lambda>url. ustr ''Example University''),
      urljoin = (\<lambda>base h. h),
      allowed_by_robots = (\<lambda>url w. (True, w)),
      fetch = (\<lambda>url w.
        (if url = ustr ''http://example.edu/staff'' then Some (ustr ''L1'')
         else if url = ustr ''http://example.edu/staff2'' then Some (ustr ''L2'')
         else if url = ustr ''http://example.edu/ann'' then Some (ustr ''A'')
         else if url = ustr ''http://example.edu/bob'' then Some (ustr ''B'')
         else if url = ustr ''http://example.edu/carl'' then Some (ustr ''C'')
         else None, w + 1)),
      translate = (\<lambda>s w. (s, w)),
      discover_profiles = (\<lambda>html base.
        if html = ustr ''L1''
        then [\<lparr>link_name = ustr ''Ann Lee'', link_profile_url = ustr ''http://example.edu/ann''\<rparr>,
              \<lparr>link_name = ustr ''Bob Ray'', link_profile_url = ustr ''http://example.edu/bob''\<rparr>]
        else if html = ustr ''L2''
        then [\<lparr>link_name = ustr ''Ann Lee'', link_profile_url = ustr ''http://example.edu/ann''\<rparr>,
              \<lparr>link_name = ustr ''Carl Orff'', link_profile_url = ustr ''http://example.edu/carl''\<rparr>]
        else []),
      select_rel_next = (\<lambda>html.
        if html = ustr ''L1''
        then Some \<lparr>href = Some (ustr ''http://example.edu/staff2''), get_text = ustr ''2''\<rparr>
        else None),
      find_all_a = (\<lambda>html.
        if html = ustr ''L2''
        then [\<lparr>href = Some (ustr ''http://example.edu/ann''), get_text = ustr ''Ann Lee''\<rparr>,
              \<lparr>href = Some (ustr ''http://example.edu/staff2''), get_text = ustr ''Next''\<rparr>]
        else []),
      select_mailto = (\<lambda>html. []),
      extract_name = (\<lambda>html.
        if html = ustr ''A'' then ustr ''Ann Lee''
        else if html = ustr ''B'' then ustr ''Bob Ray''
        else if html = ustr ''C'' then ustr ''Carl Orff'' else []),
      extract_school = (\<lambda>html. []),
      extract_research_area = (\<lambda>html. []),
      get_main_text = (\<lambda>html.
        if html = ustr ''A'' then ustr ''ann.lee@example.edu''
        else if html = ustr ''B'' then ustr ''bob.ray@gmail.com''
        else if html = ustr ''C'' then ustr ''carl@example.edu'' else []),
      extract_phones = (\<lambda>t. [])\<rparr>"

section \<open>The matches of a pattern\<close>

text \<open>The characters that a match of a pattern can contain, whether a pattern can match
  the empty string, and whether it is free of \<open>$\<close>.\<close>

fun alphabet :: "rx \<Rightarrow> nat \<Rightarrow> bool" where
  "alphabet (Cls p) x = p x"
| "alphabet Eps x = False"
| "alphabet (Seq a b) x = (alphabet a x \<or> alphabet b x)"
| "alphabet (Alt a b) x = (alphabet a x \<or> alphabet b x)"
| "alphabet (Star p) x = p x"
| "alphabet (Grp n a) x = alphabet a x"
| "alphabet Eos x = False"

fun nullable :: "rx \<Rightarrow> bool" where
  "nullable (Cls p) = False"
| "nullable Eps = True"
| "nullable (Seq a b) = (nullable a \<and> nullable b)"
| "nullable (Alt a b) = (nullable a \<or> nullable b)"
| "nullable (Star p) = True"
| "nullable (Grp n a) = nullable a"
| "nullable Eos = True"

fun eos_free :: "rx \<Rightarrow> bool" where
  "eos_free (Cls p) = True"
| "eos_free Eps = True"
| "eos_free (Seq a b) = (eos_free a \<and> eos_free b)"
| "eos_free (Alt a b) = (eos_free a \<and> eos_free b)"
| "eos_free (Star p) = True"
| "eos_free (Grp n a) = eos_free a"
| "eos_free Eos = False"

text \<open>No suffix of \<open>s\<close> starts with a match of \<open>r\<close>: the pattern is found nowhere in \<open>s\<close>.\<close>

definition unmatched :: "rx \<Rightarrow> pystr \<Rightarrow> bool" where
  "unmatched r s \<longleftrightarrow> (\<forall>v. suffix v s \<longrightarrow> ms r v [] = [])"

section \<open>The ranking as specified\<close>

text \<open>
  The ranking as the specification words it. The local part of an address is the text
  before its first \<open>@\<close>, the domain the text after it.
\<close>

definition spec_local :: "pystr \<Rightarrow> pystr" where
  "spec_local e = takeWhile (\<lambda>c. c \<noteq> 64) e"

definition spec_domain :: "pystr \<Rightarrow> pystr" where
  "spec_domain e = drop 1 (dropWhile (\<lambda>c. c \<noteq> 64) e)"

text \<open>The alphabetic tokens of a name: its maximal runs of the letters \<open>A\<close> to \<open>Z\<close> and
  \<open>a\<close> to \<open>z\<close>, from left to right.\<close>

fun runs :: "(nat \<Rightarrow> bool) \<Rightarrow> pystr \<Rightarrow> pystr \<Rightarrow> pystr list" where
  "runs p acc [] = (if acc = [] then [] else [acc])"
| "runs p acc (x # xs) =
     (if p x then runs p (acc @ [x]) xs
      else (if acc = [] then [] else [acc]) @ runs p [] xs)"

definition spec_name_tokens :: "pystr \<Rightarrow> pystr list" where
  "spec_name_tokens name = runs (\<lambda>c. is_upper_az c \<or> is_lower_az c) [] name"

text \<open>Name affinity: the number of alphabetic name tokens of length at least 2 that are
  substrings of the local part or contain it, both taken in lower case.\<close>

definition spec_affinity :: "unicode \<Rightarrow> pystr \<Rightarrow> pystr \<Rightarrow> nat" where
  "spec_affinity U name local =
     length (filter (\<lambda>t. 2 \<le> length t \<and>
                          (sublist t (py_lower U local) \<or> sublist (py_lower U local) t))
                    (map (py_lower U) (spec_name_tokens name)))"

text \<open>The domain, in lower case, is the registrable domain of the site or a subdomain
  of it; no domain is when the site has no registrable domain.\<close>

definition spec_same_domain :: "unicode \<Rightarrow> pystr \<Rightarrow> pystr \<Rightarrow> bool" where
  "spec_same_domain U site_regdom domain \<longleftrightarrow>
     site_regdom \<noteq> [] \<and>
     (py_lower U domain = site_regdom \<or> suffix (46 # site_regdom) (py_lower U domain))"

text \<open>
  \<open>spec_better U name site a b\<close>: the address \<open>a\<close> is ranked strictly before \<open>b\<close>. The four
  criteria are compared in order, each deciding only when the earlier ones tie: same
  registrable domain, academic domain, higher name affinity, shorter local part with
  lengths above 20 counted as 20.
\<close>

definition spec_better :: "unicode \<Rightarrow> pystr \<Rightarrow> pystr \<Rightarrow> pystr \<Rightarrow> pystr \<Rightarrow> bool" where
  "spec_better U name site_regdom a b \<longleftrightarrow>
     (let same_a = spec_same_domain U site_regdom (spec_domain a);
          same_b = spec_same_domain U site_regdom (spec_domain b);
          acad_a = is_academic_domain U (spec_domain a);
          acad_b = is_academic_domain U (spec_domain b);
          aff_a = spec_affinity U name (spec_local a);
          aff_b = spec_affinity U name (spec_local b);
          len_a = min (length (spec_local a)) 20;
          len_b = min (length (spec_local b)) 20
      in (same_a \<and> \<not> same_b) \<or>
         (same_a = same_b \<and>
          ((acad_a \<and> \<not> acad_b) \<or>
           (acad_a = acad_b \<and>
            (aff_a > aff_b \<or> (aff_a = aff_b \<and> len_a < len_b))))))"

section \<open>Properties of the email filter and ranker\<close>

lemmas rx_eval = ustr_def ord_def is_space_def Opt_def Plus_def chr_def lit_def lit_i_def icase_def
  lower_cp_def upper_cp_def is_upper_az_def is_lower_az_def is_digit09_def one_of_def

lemma upto_numeral: "upto (numeral k) p = Alt (Seq (Cls p) (upto (pred_numeral k) p)) Eps"
  by (simp add: numeral_eq_Suc)

lemma times_numeral: "times (numeral k) p = Seq (Cls p) (times (pred_numeral k) p)"
  by (simp add: numeral_eq_Suc)

lemma ustr_at [simp]: "ustr ''@'' = [64]" by (simp add: ustr_def)
lemma ord_at [simp]: "ord CHR ''@'' = 64" by (simp add: ord_def)

lemma py_in_single: "py_in [c] s \<longleftrightarrow> c \<in> set s"
  unfolding py_in_def by (induction s) (auto simp: sublist_Cons_right)

lemma split_once_None: "split_once c s = None \<longleftrightarrow> c \<notin> set s"
  by (induction s) (auto split: option.splits)

lemma split_once_append: "c \<notin> set a \<Longrightarrow> split_once c (a @ c # b) = Some (a, b)"
  by (induction a) auto

lemma split_once_Some: "split_once c s = Some (a, b) \<Longrightarrow> s = a @ c # b \<and> c \<notin> set a"
  by (induction s arbitrary: a) (auto split: if_splits option.splits)

lemma email_allowed_has_at: "email_allowed U e site \<Longrightarrow> \<exists>l d. split_once 64 e = Some (l, d)"
  by (auto simp: email_allowed_def split: if_splits option.splits)

lemma pick_loop_skip:
  "\<not> email_allowed U e site \<Longrightarrow> pick_loop U name site (e # es) best bk = pick_loop U name site es best bk"
  by (simp add: pick_loop.simps(2) split: option.splits)

lemma pick_loop_take:
  assumes "email_allowed U e site"
  shows "pick_loop U name site (e # es) best bk =
     (case bk of None \<Rightarrow> pick_loop U name site es e (Some (email_key U name site e))
      | Some k \<Rightarrow> if email_key U name site e < k then pick_loop U name site es e (Some (email_key U name site e))
                   else pick_loop U name site es best bk)"
proof -
  from email_allowed_has_at[OF assms] obtain l d where sp: "split_once 64 e = Some (l, d)" by blast
  then have "64 \<in> set e" using split_once_None[of 64 e] by auto
  then show ?thesis using assms sp
    by (simp add: pick_loop.simps(2) py_in_single email_key_def Let_def split: option.splits)
qed

lemma pick_loop_none_allowed:
  "\<forall>e\<in>set es. \<not> email_allowed U e site \<Longrightarrow> pick_loop U name site es best bk = best"
proof (induction es)
  case Nil show ?case by simp
next
  case (Cons e es)
  then show ?case using pick_loop_skip[of U e site name es best bk] by simp
qed

lemma pick_loop_Some:
  "pick_loop U name site es best (Some k) = r \<Longrightarrow>
   (r = best \<and> (\<forall>e \<in> set (filter (\<lambda>e. email_allowed U e site) es). k \<le> email_key U name site e)) \<or>
   (\<exists>pre post. filter (\<lambda>e. email_allowed U e site) es = pre @ r # post \<and>
      email_key U name site r < k \<and>
      (\<forall>e\<in>set pre. email_key U name site r < email_key U name site e) \<and>
      (\<forall>e\<in>set post. email_key U name site r \<le> email_key U name site e))"
proof (induction es arbitrary: best k)
  case Nil then show ?case by simp
next
  case (Cons e es)
  let ?K = "email_key U name site"
  let ?ok = "filter (\<lambda>e. email_allowed U e site) es"
  show ?case
  proof (cases "email_allowed U e site")
    case False
    with Cons.prems have "pick_loop U name site es best (Some k) = r" by (simp add: pick_loop_skip)
    from Cons.IH[OF this] False show ?thesis by simp
  next
    case True
    show ?thesis
    proof (cases "?K e < k")
      case lt: True
      with True Cons.prems have "pick_loop U name site es e (Some (?K e)) = r"
        by (simp add: pick_loop_take)
      from Cons.IH[OF this] show ?thesis
      proof
        assume a: "r = e \<and> (\<forall>x\<in>set ?ok. ?K e \<le> ?K x)"
        have "filter (\<lambda>e. email_allowed U e site) (e # es) = [] @ r # ?ok" using True a by simp
        with a lt show ?thesis by (intro disjI2 exI[of _ "[]"] exI[of _ ?ok]) auto
      next
        assume "\<exists>pre post. ?ok = pre @ r # post \<and> ?K r < ?K e \<and>
          (\<forall>x\<in>set pre. ?K r < ?K x) \<and> (\<forall>x\<in>set post. ?K r \<le> ?K x)"
        then obtain pre post where p: "?ok = pre @ r # post" "?K r < ?K e"
          "\<forall>x\<in>set pre. ?K r < ?K x" "\<forall>x\<in>set post. ?K r \<le> ?K x" by blast
        have "filter (\<lambda>e. email_allowed U e site) (e # es) = (e # pre) @ r # post" using True p by simp
        moreover have "?K r < k" using p(2) lt by simp
        ultimately show ?thesis using p by (intro disjI2 exI[of _ "e # pre"] exI[of _ post]) auto
      qed
    next
      case ge: False
      with True Cons.prems have "pick_loop U name site es best (Some k) = r"
        by (simp add: pick_loop_take)
      from Cons.IH[OF this] show ?thesis
      proof
        assume a: "r = best \<and> (\<forall>x\<in>set ?ok. k \<le> ?K x)"
        with ge True show ?thesis by auto
      next
        assume "\<exists>pre post. ?ok = pre @ r # post \<and> ?K r < k \<and>
          (\<forall>x\<in>set pre. ?K r < ?K x) \<and> (\<forall>x\<in>set post. ?K r \<le> ?K x)"
        then obtain pre post where p: "?ok = pre @ r # post" "?K r < k"
          "\<forall>x\<in>set pre. ?K r < ?K x" "\<forall>x\<in>set post. ?K r \<le> ?K x" by blast
        have "filter (\<lambda>e. email_allowed U e site) (e # es) = (e # pre) @ r # post" using True p by simp
        moreover have "?K r < ?K e" using p(2) ge by simp
        ultimately show ?thesis using p by (intro disjI2 exI[of _ "e # pre"] exI[of _ post]) auto
      qed
    qed
  qed
qed

lemma pick_loop_None:
  "filter (\<lambda>e. email_allowed U e site) es \<noteq> [] \<Longrightarrow>
   \<exists>pre post. filter (\<lambda>e. email_allowed U e site) es = pre @ pick_loop U name site es best None # post \<and>
      (\<forall>e\<in>set pre. email_key U name site (pick_loop U name site es best None) < email_key U name site e) \<and>
      (\<forall>e\<in>set post. email_key U name site (pick_loop U name site es best None) \<le> email_key U name site e)"
proof (induction es)
  case Nil then show ?case by simp
next
  case (Cons e es)
  let ?K = "email_key U name site"
  let ?ok = "filter (\<lambda>e. email_allowed U e site) es"
  show ?case
  proof (cases "email_allowed U e site")
    case False
    then show ?thesis using Cons by (simp add: pick_loop_skip)
  next
    case True
    define r where "r = pick_loop U name site es e (Some (?K e))"
    have eq: "pick_loop U name site (e # es) best None = r"
      using True by (simp add: pick_loop_take r_def)
    from pick_loop_Some[OF r_def[symmetric]] show ?thesis
    proof
      assume a: "r = e \<and> (\<forall>x\<in>set ?ok. ?K e \<le> ?K x)"
      have "filter (\<lambda>e. email_allowed U e site) (e # es) = [] @ r # ?ok" using True a by simp
      with a show ?thesis unfolding eq by (intro exI[of _ "[]"] exI[of _ ?ok]) auto
    next
      assume "\<exists>pre post. ?ok = pre @ r # post \<and> ?K r < ?K e \<and>
          (\<forall>x\<in>set pre. ?K r < ?K x) \<and> (\<forall>x\<in>set post. ?K r \<le> ?K x)"
      then obtain pre post where p: "?ok = pre @ r # post" "?K r < ?K e"
          "\<forall>x\<in>set pre. ?K r < ?K x" "\<forall>x\<in>set post. ?K r \<le> ?K x" by blast
      have "filter (\<lambda>e. email_allowed U e site) (e # es) = (e # pre) @ r # post" using True p by simp
      then show ?thesis unfolding eq using p by (intro exI[of _ "e # pre"] exI[of _ post]) auto
    qed
  qed
qed

lemma email_allowed_split:
  assumes "ord CHR ''@'' \<notin> set local"
  shows "email_allowed U (local @ ustr ''@'' @ domain) site_regdom \<longleftrightarrow>
     (let ll = py_lower U local; dl = py_lower U domain; l = py_lower U ll in
        l \<notin> set GENERIC_EMAIL_USERS \<and>
        \<not> startswith l (ustr ''no-reply'') \<and> \<not> startswith l (ustr ''noreply'') \<and>
        \<not> startswith l (ustr ''postmaster'') \<and>
        dl \<notin> set PERSONAL_FREE_DOMAINS \<and>
        ((site_regdom \<noteq> [] \<and> (dl = site_regdom \<or> endswith dl (ustr ''.'' @ site_regdom))) \<or>
         is_academic_domain U dl))"
proof -
  have sp: "split_once 64 (local @ 64 # domain) = Some (local, domain)"
    using assms by (simp add: split_once_append)
  have "py_in [64] (local @ 64 # domain)" by (simp add: py_in_single)
  then show ?thesis
    using sp by (auto simp: email_allowed_def email_is_generic_def Let_def)
qed

text \<open>
  Claim C3, as amended. For every email string containing \<open>@\<close> (\<open>local\<close> is the text before
  the first \<open>@\<close>, \<open>domain\<close> the text after it) and every site registrable domain,
  \<open>email_allowed\<close> returns true if and only if the lower-cased local part is not a known
  generic mailbox name and does not start with \<open>no-reply\<close>, \<open>noreply\<close> or \<open>postmaster\<close>,
  the lower-cased domain is not a known free mail provider, and either the site's
  registrable domain is non-empty and the domain equals it or is a subdomain of it, or
  the domain ends with a recognized academic suffix.
\<close>

theorem email_allowed_policy:
  assumes "ord CHR ''@'' \<notin> set local"
  shows "email_allowed U (local @ ustr ''@'' @ domain) site_regdom \<longleftrightarrow>
     (let ll = py_lower U local; dl = py_lower U domain; l = py_lower U ll in
        l \<notin> set GENERIC_EMAIL_USERS \<and>
        \<not> startswith l (ustr ''no-reply'') \<and> \<not> startswith l (ustr ''noreply'') \<and>
        \<not> startswith l (ustr ''postmaster'') \<and>
        dl \<notin> set PERSONAL_FREE_DOMAINS \<and>
        ((site_regdom \<noteq> [] \<and> (dl = site_regdom \<or> endswith dl (ustr ''.'' @ site_regdom))) \<or>
         is_academic_domain U dl))"
  using assms by (rule email_allowed_split)

theorem email_allowed_policy_witness:
  "ord CHR ''@'' \<notin> set (ustr ''j.smith'') \<and>
   email_allowed ascii_unicode (ustr ''j.smith'' @ ustr ''@'' @ ustr ''cs.example.edu'') (ustr ''example.edu'')"
proof -
  have h: "ord CHR ''@'' \<notin> set (ustr ''j.smith'')" by code_simp
  have r: "(let ll = py_lower ascii_unicode (ustr ''j.smith'');
                dl = py_lower ascii_unicode (ustr ''cs.example.edu''); l = py_lower ascii_unicode ll in
        l \<notin> set GENERIC_EMAIL_USERS \<and>
        \<not> startswith l (ustr ''no-reply'') \<and> \<not> startswith l (ustr ''noreply'') \<and>
        \<not> startswith l (ustr ''postmaster'') \<and>
        dl \<notin> set PERSONAL_FREE_DOMAINS \<and>
        ((ustr ''example.edu'' \<noteq> [] \<and> (dl = ustr ''example.edu'' \<or> endswith dl (ustr ''.'' @ ustr ''example.edu''))) \<or>
         is_academic_domain ascii_unicode dl))" by code_simp
  show ?thesis
    using h r email_allowed_policy [OF h, of ascii_unicode "ustr ''cs.example.edu''" "ustr ''example.edu''"]
    by blast
qed

text \<open>
  Claim C3 as stated fails when the site has no registrable domain (the empty string):
  for the address \<open>a@\<close> the local part \<open>a\<close> is not generic, the domain is not a free
  mail provider and equals the site's (empty) registrable domain, yet \<open>email_allowed\<close> is
  false, because the same-domain test is guarded by \<open>site_regdom\<close> being non-empty.
\<close>

theorem email_allowed_empty_site_counterexample:
  "split_once (ord CHR ''@'') (ustr ''a@'') = Some (ustr ''a'', ustr '''') \<and>
   \<not> email_is_generic ascii_unicode (py_lower ascii_unicode (ustr ''a'')) \<and>
   py_lower ascii_unicode (ustr '''') \<notin> set PERSONAL_FREE_DOMAINS \<and>
   py_lower ascii_unicode (ustr '''') = ustr '''' \<and>
   \<not> email_allowed ascii_unicode (ustr ''a@'') (ustr '''')"
  by code_simp

lemma star_ends_hd: "star_ends p s \<noteq> [] \<and> hd (star_ends p s) = dropWhile p s"
  by (induction s) auto

lemma re_findall_Plus_Nil: "re_findall (Plus p) [] = []"
  by (subst re_findall.simps) (simp add: Plus_def)

lemma re_findall_Plus_Cons:
  "re_findall (Plus p) (x # xs) =
     (if p x then (x # takeWhile p xs) # re_findall (Plus p) (dropWhile p xs)
      else re_findall (Plus p) xs)"
proof (cases "p x")
  case False
  then show ?thesis by (subst re_findall.simps) (simp add: Plus_def)
next
  case True
  obtain e es where se: "star_ends p xs = e # es" using star_ends_hd[of p xs] by (cases "star_ends p xs") auto
  then have e: "e = dropWhile p xs" using star_ends_hd[of p xs] by simp
  have len: "length (dropWhile p xs) \<le> length xs" by (rule length_dropWhile_le)
  have tk: "take (Suc (length xs) - length (dropWhile p xs)) (x # xs) = x # takeWhile p xs"
  proof -
    have "length xs = length (takeWhile p xs) + length (dropWhile p xs)"
      by (metis length_append takeWhile_dropWhile_id)
    then have "Suc (length xs) - length (dropWhile p xs) = Suc (length (takeWhile p xs))" by simp
    moreover have "take (length (takeWhile p xs)) xs = takeWhile p xs"
      by (metis append_eq_conv_conj takeWhile_dropWhile_id)
    ultimately show ?thesis by simp
  qed
  show ?thesis using True se e len tk
    by (subst re_findall.simps) (simp add: Plus_def)
qed

lemma re_findall_Plus_split:
  "re_findall (Plus p) s =
     (if takeWhile p s = [] then [] else [takeWhile p s]) @ re_findall (Plus p) (dropWhile p s)"
  by (cases s) (simp_all add: re_findall_Plus_Nil re_findall_Plus_Cons)

lemma runs_findall:
  "runs p acc s =
     (if acc @ takeWhile p s = [] then [] else [acc @ takeWhile p s]) @
     re_findall (Plus p) (dropWhile p s)"
proof (induction s arbitrary: acc)
  case Nil then show ?case by (simp add: re_findall_Plus_Nil)
next
  case (Cons x xs)
  show ?case
  proof (cases "p x")
    case True
    then show ?thesis using Cons.IH[of "acc @ [x]"] by simp
  next
    case False
    then show ?thesis
      using Cons.IH[of "[]"] re_findall_Plus_split[of p xs]
      by (simp add: re_findall_Plus_Cons)
  qed
qed

lemma spec_name_tokens_findall:
  "re_findall (Plus (\<lambda>c. is_upper_az c \<or> is_lower_az c)) name = spec_name_tokens name"
  unfolding spec_name_tokens_def runs_findall using re_findall_Plus_split[of _ name] by simp

lemma name_affinity_spec: "name_affinity U name local = int (spec_affinity U name local)"
  by (simp add: name_affinity_def spec_affinity_def spec_name_tokens_findall py_in_def Let_def)

lemma split_once_spec:
  "64 \<in> set e \<Longrightarrow> split_once 64 e = Some (spec_local e, spec_domain e)"
  unfolding spec_local_def spec_domain_def by (induction e) auto

lemma email_allowed_at: "email_allowed U e site \<Longrightarrow> 64 \<in> set e"
  using email_allowed_has_at[of U e site] split_once_None[of 64 e] by auto

lemma email_key_less_spec:
  assumes "64 \<in> set a" "64 \<in> set b"
  shows "email_key U name site a < email_key U name site b \<longleftrightarrow> spec_better U name site a b"
  using assms
  by (auto simp: email_key_def split_once_spec rank_key_def spec_better_def spec_same_domain_def
        name_affinity_spec endswith_def ustr_def Let_def)

lemmas rank_eval = pick_best_email_def pick_loop.simps email_allowed_def email_is_generic_def
  is_academic_domain_def ACADEMIC_EMAIL_PREF_def rank_key_def name_affinity_def py_lower_def
  ascii_unicode_def ascii_lower_def py_in_def sublist_Cons_right GENERIC_EMAIL_USERS_def
  PERSONAL_FREE_DOMAINS_def startswith_def endswith_def re_match_def re_findall.simps rx_eval
  times_numeral Let_def

lemma ranking_example_pick:
  "pick_best_email ascii_unicode (ustr ''John Smith'')
     [ustr ''jdoe@other.edu'', ustr ''zed@example.edu'', ustr ''smith@example.edu'',
      ustr ''jsmith@example.edu''] (ustr ''example.edu'') = ustr ''smith@example.edu''"
  by (simp add: rank_eval)

lemma ranking_example_filter:
  "filter (\<lambda>e. email_allowed ascii_unicode e (ustr ''example.edu''))
     [ustr ''jdoe@other.edu'', ustr ''zed@example.edu'', ustr ''smith@example.edu'',
      ustr ''jsmith@example.edu''] =
     [ustr ''jdoe@other.edu'', ustr ''zed@example.edu'', ustr ''smith@example.edu'',
      ustr ''jsmith@example.edu'']"
  by (simp add: rank_eval)

text \<open>
  Claim C4. Among the candidates that pass \<open>email_allowed\<close>, in their order in the input,
  \<open>pick_best_email\<close> returns the earliest of the best ranked: it is ranked strictly
  before every passing candidate that precedes it, and no passing candidate that
  follows it is ranked strictly before it. The ranking is \<open>spec_better\<close>: a candidate of
  the site's registrable domain (or a subdomain) comes before one that is not; among
  those that agree on this, one with an academic domain comes first; then the one with
  the higher name affinity, the number of alphabetic tokens of the name of length at
  least 2 that occur in the local part or contain it (in lower case); then the one with
  the shorter local part, lengths above 20 counting as 20. For the name \<open>John Smith\<close>,
  the candidates \<open>info@example.edu\<close> and \<open>j.smith@example.edu\<close> and the site domain
  \<open>example.edu\<close> the result is \<open>j.smith@example.edu\<close>.
\<close>

theorem pick_best_email_earliest_minimum:
  "(filter (\<lambda>e. email_allowed U e site_regdom) emails \<noteq> [] \<longrightarrow>
     (\<exists>pre post.
        filter (\<lambda>e. email_allowed U e site_regdom) emails =
          pre @ pick_best_email U name emails site_regdom # post \<and>
        (\<forall>e\<in>set pre. spec_better U name site_regdom
                          (pick_best_email U name emails site_regdom) e) \<and>
        (\<forall>e\<in>set post. \<not> spec_better U name site_regdom e
                          (pick_best_email U name emails site_regdom)))) \<and>
   pick_best_email U (ustr ''John Smith'') [ustr ''info@example.edu'', ustr ''j.smith@example.edu'']
     (ustr ''example.edu'') = ustr ''j.smith@example.edu''"
proof
  show "filter (\<lambda>e. email_allowed U e site_regdom) emails \<noteq> [] \<longrightarrow>
     (\<exists>pre post.
        filter (\<lambda>e. email_allowed U e site_regdom) emails =
          pre @ pick_best_email U name emails site_regdom # post \<and>
        (\<forall>e\<in>set pre. spec_better U name site_regdom
                          (pick_best_email U name emails site_regdom) e) \<and>
        (\<forall>e\<in>set post. \<not> spec_better U name site_regdom e
                          (pick_best_email U name emails site_regdom)))"
  proof
    assume ne: "filter (\<lambda>e. email_allowed U e site_regdom) emails \<noteq> []"
    let ?F = "filter (\<lambda>e. email_allowed U e site_regdom) emails"
    let ?r = "pick_best_email U name emails site_regdom"
    let ?K = "email_key U name site_regdom"
    from pick_loop_None[OF ne, of name "[]"] obtain pre post where
      F: "?F = pre @ ?r # post" and
      a: "\<forall>e\<in>set pre. ?K ?r < ?K e" and b: "\<forall>e\<in>set post. ?K ?r \<le> ?K e"
      unfolding pick_best_email_def by blast
    have at: "64 \<in> set e" if "e \<in> set ?F" for e
      using that email_allowed_at[of U e site_regdom] by simp
    have r: "64 \<in> set ?r" using at[of ?r] F by simp
    have "\<forall>e\<in>set pre. spec_better U name site_regdom ?r e"
    proof
      fix e assume e: "e \<in> set pre"
      then have e64: "64 \<in> set e" using at[of e] F by simp
      from a e have "?K ?r < ?K e" by blast
      then show "spec_better U name site_regdom ?r e"
        using email_key_less_spec[OF r e64] by blast
    qed
    moreover have "\<forall>e\<in>set post. \<not> spec_better U name site_regdom e ?r"
    proof
      fix e assume e: "e \<in> set post"
      then have e64: "64 \<in> set e" using at[of e] F by simp
      from b e have "\<not> ?K e < ?K ?r" by auto
      then show "\<not> spec_better U name site_regdom e ?r"
        using email_key_less_spec[OF e64 r] by blast
    qed
    ultimately show "\<exists>pre post. ?F = pre @ ?r # post \<and>
        (\<forall>e\<in>set pre. spec_better U name site_regdom ?r e) \<and>
        (\<forall>e\<in>set post. \<not> spec_better U name site_regdom e ?r)"
      using F by blast
  qed
  show "pick_best_email U (ustr ''John Smith'') [ustr ''info@example.edu'', ustr ''j.smith@example.edu'']
     (ustr ''example.edu'') = ustr ''j.smith@example.edu''"
    by code_simp
qed

theorem pick_best_email_earliest_minimum_witness:
  "filter (\<lambda>e. email_allowed ascii_unicode e (ustr ''example.edu''))
     [ustr ''jdoe@other.edu'', ustr ''zed@example.edu'', ustr ''smith@example.edu'',
      ustr ''jsmith@example.edu''] \<noteq> [] \<and>
   pick_best_email ascii_unicode (ustr ''John Smith'')
     [ustr ''jdoe@other.edu'', ustr ''zed@example.edu'', ustr ''smith@example.edu'',
      ustr ''jsmith@example.edu''] (ustr ''example.edu'') = ustr ''smith@example.edu'' \<and>
   spec_better ascii_unicode (ustr ''John Smith'') (ustr ''example.edu'')
     (ustr ''smith@example.edu'') (ustr ''jdoe@other.edu'') \<and>
   spec_better ascii_unicode (ustr ''John Smith'') (ustr ''example.edu'')
     (ustr ''smith@example.edu'') (ustr ''zed@example.edu'') \<and>
   \<not> spec_better ascii_unicode (ustr ''John Smith'') (ustr ''example.edu'')
     (ustr ''jsmith@example.edu'') (ustr ''smith@example.edu'')"
proof -
  let ?L = "[ustr ''jdoe@other.edu'', ustr ''zed@example.edu'', ustr ''smith@example.edu'',
      ustr ''jsmith@example.edu'']"
  let ?B = "spec_better ascii_unicode (ustr ''John Smith'') (ustr ''example.edu'')"
  have ne: "filter (\<lambda>e. email_allowed ascii_unicode e (ustr ''example.edu'')) ?L \<noteq> []"
    unfolding ranking_example_filter by simp
  from ne pick_best_email_earliest_minimum
         [of ascii_unicode "ustr ''example.edu''" ?L "ustr ''John Smith''"]
  obtain pre post where d: "?L = pre @ ustr ''smith@example.edu'' # post"
    and a: "\<forall>e\<in>set pre. ?B (ustr ''smith@example.edu'') e"
    and b: "\<forall>e\<in>set post. \<not> ?B e (ustr ''smith@example.edu'')"
    unfolding ranking_example_filter ranking_example_pick by blast
  from d have "pre = [ustr ''jdoe@other.edu'', ustr ''zed@example.edu''] \<and>
               post = [ustr ''jsmith@example.edu'']"
    by (simp add: ustr_def Cons_eq_append_conv)
  with a b ne ranking_example_pick show ?thesis by simp
qed

text \<open>
  Claim C5. \<open>pick_best_email\<close> returns the empty string when no candidate passes
  \<open>email_allowed\<close>; in particular, for every name and site domain, when the domain of
  every candidate is \<open>gmail.com\<close>.
\<close>

theorem pick_best_email_empty:
  "((\<forall>e\<in>set emails. \<not> email_allowed U e site_regdom) \<longrightarrow>
      pick_best_email U name emails site_regdom = []) \<and>
   ((\<forall>e\<in>set emails. \<exists>local. ord CHR ''@'' \<notin> set local \<and> e = local @ ustr ''@gmail.com'') \<longrightarrow>
      pick_best_email U name emails site_regdom = [])"
proof -
  have gm: "\<not> email_allowed U (local @ ustr ''@gmail.com'') site_regdom"
    if "ord CHR ''@'' \<notin> set local" for local
  proof -
    have e: "local @ ustr ''@gmail.com'' = local @ ustr ''@'' @ ustr ''gmail.com''"
      by (simp add: ustr_def)
    have "py_lower U (ustr ''gmail.com'') \<in> set PERSONAL_FREE_DOMAINS" by code_simp
    then show ?thesis unfolding e using email_allowed_split[OF that, of U "ustr ''gmail.com''" site_regdom]
      by (simp add: Let_def)
  qed
  show ?thesis unfolding pick_best_email_def
    using gm by (auto intro!: pick_loop_none_allowed)
qed

theorem pick_best_email_empty_witness:
  "\<not> email_allowed ascii_unicode (ustr ''ann.lee@gmail.com'') (ustr ''gmail.com'') \<and>
   ord CHR ''@'' \<notin> set (ustr ''ann.lee'') \<and>
   ustr ''ann.lee@gmail.com'' = ustr ''ann.lee'' @ ustr ''@gmail.com'' \<and>
   pick_best_email ascii_unicode (ustr ''Ann Lee'') [ustr ''ann.lee@gmail.com''] (ustr ''gmail.com'') = []"
proof -
  have h1: "\<not> email_allowed ascii_unicode (ustr ''ann.lee@gmail.com'') (ustr ''gmail.com'')" by code_simp
  have h2: "ord CHR ''@'' \<notin> set (ustr ''ann.lee'')" by code_simp
  have h3: "ustr ''ann.lee@gmail.com'' = ustr ''ann.lee'' @ ustr ''@gmail.com''" by code_simp
  show ?thesis
    using h1 h2 h3 pick_best_email_empty [of "[ustr ''ann.lee@gmail.com'']" ascii_unicode "ustr ''gmail.com''" "ustr ''Ann Lee''"]
    by auto
qed

section \<open>Properties of the email extraction\<close>

lemma set_uniq: "set (uniq seen xs) = set xs - set seen"
  by (induction xs arbitrary: seen) auto

subsection \<open>The rewriting of obfuscated addresses\<close>

lemma re_sub_no_match: "re_search r s = None \<Longrightarrow> re_sub r repl s = s"
proof (induction s)
  case Nil
  then show ?case by (auto simp: re_match_def re_sub.simps split: list.splits prod.splits)
next
  case (Cons x xs)
  from Cons.prems have m: "ms r (x # xs) [] = []" and r: "re_search r xs = None"
    by (auto simp: re_match_def split: list.splits option.splits prod.splits)
  from Cons.IH [OF r] m show ?case by (subst re_sub.simps) simp
qed

lemma py_replace_absent: "\<not> py_in old s \<Longrightarrow> py_replace old new s = s"
  unfolding py_in_def by (induction s) (auto simp: sublist_Cons_right)

lemma subs_no_match:
  "list_all (\<lambda>(pat, repl). re_search pat s = None) ps \<Longrightarrow>
   foldl (\<lambda>s (pat, repl). re_sub pat repl s) s ps = s"
  by (induction ps) (auto simp: re_sub_no_match)

lemma deobfuscate_token_free: "token_free s \<Longrightarrow> deobfuscate s = s"
  by (simp add: token_free_def deobfuscate_def Let_def subs_no_match py_replace_absent)

lemma example_deobfuscate:
  "deobfuscate (ustr ''john.smith [at] cs.example.edu'') = ustr ''john.smith@cs.example.edu''"
  by (simp add: deobfuscate_def EMAIL_TOKEN_PATTERNS_def Let_def rx_eval re_sub.simps)

text \<open>
  Claim C6 as stated fails: rewriting \<open>a(remove)t\<close> gives \<open>at\<close>, because the pattern that
  deletes \<open>(remove)\<close> is the last one applied, and rewriting \<open>at\<close> gives \<open>@\<close>. So the
  rewrite of \<open>normalize_email\<close> applied twice differs from the rewrite applied once.
\<close>

theorem deobfuscate_not_idempotent_counterexample:
  "deobfuscate (deobfuscate (ustr ''a(remove)t'')) \<noteq> deobfuscate (ustr ''a(remove)t'')"
proof -
  have a: "deobfuscate (ustr ''a(remove)t'') = ustr ''at''"
    by (simp add: deobfuscate_def EMAIL_TOKEN_PATTERNS_def Let_def rx_eval re_sub.simps)
  have b: "deobfuscate (ustr ''at'') = ustr ''@''"
    by (simp add: deobfuscate_def EMAIL_TOKEN_PATTERNS_def Let_def rx_eval re_sub.simps)
  show ?thesis unfolding a b by (simp add: ustr_def)
qed

lemma star_ends_iff: "s' \<in> set (star_ends p s) \<longleftrightarrow> (\<exists>w. s = w @ s' \<and> (\<forall>x\<in>set w. p x))"
proof (induction s)
  case Nil then show ?case by auto
next
  case (Cons x xs)
  show ?case
  proof
    assume "s' \<in> set (star_ends p (x # xs))"
    then consider "p x" "s' \<in> set (star_ends p xs)" | "s' = x # xs" by (auto split: if_splits)
    then show "\<exists>w. x # xs = w @ s' \<and> (\<forall>x\<in>set w. p x)"
    proof cases
      case 1
      with Cons.IH obtain w where "xs = w @ s'" "\<forall>x\<in>set w. p x" by blast
      with 1 show ?thesis by (intro exI[of _ "x # w"]) simp
    next
      case 2 then show ?thesis by (intro exI[of _ "[]"]) simp
    qed
  next
    assume "\<exists>w. x # xs = w @ s' \<and> (\<forall>x\<in>set w. p x)"
    then obtain w where w: "x # xs = w @ s'" "\<forall>x\<in>set w. p x" by blast
    show "s' \<in> set (star_ends p (x # xs))"
    proof (cases w)
      case Nil with w have "s' = x # xs" by simp
      then show ?thesis by simp
    next
      case (Cons y ys)
      with w have "p x" "xs = ys @ s'" "\<forall>x\<in>set ys. p x" by auto
      with Cons.IH show ?thesis by auto
    qed
  qed
qed

lemma ms_decompose:
  "(s', c') \<in> set (ms r s c) \<Longrightarrow>
   \<exists>w. s = w @ s' \<and> (\<forall>x\<in>set w. alphabet r x) \<and> (\<not> nullable r \<longrightarrow> w \<noteq> [])"
proof (induction r arbitrary: s c s' c')
  case (Cls p)
  then show ?case by (cases s) (auto split: if_splits)
next
  case Eps then show ?case by simp
next
  case (Seq a b)
  from Seq.prems obtain s1 c1 where 1: "(s1, c1) \<in> set (ms a s c)" and 2: "(s', c') \<in> set (ms b s1 c1)"
    by auto
  from Seq.IH(1)[OF 1] obtain w1 where w1: "s = w1 @ s1" "\<forall>x\<in>set w1. alphabet a x"
    "\<not> nullable a \<longrightarrow> w1 \<noteq> []" by blast
  from Seq.IH(2)[OF 2] obtain w2 where w2: "s1 = w2 @ s'" "\<forall>x\<in>set w2. alphabet b x"
    "\<not> nullable b \<longrightarrow> w2 \<noteq> []" by blast
  show ?case using w1 w2 by (intro exI[of _ "w1 @ w2"]) auto
next
  case (Alt a b)
  then show ?case by fastforce
next
  case (Star p)
  then have "s' \<in> set (star_ends p s)" by auto
  then show ?case using star_ends_iff[of s' p s] by auto
next
  case (Grp n a)
  from Grp.prems obtain c0 where "(s', c0) \<in> set (ms a s c)" by auto
  from Grp.IH[OF this] show ?case by simp
next
  case Eos
  then show ?case by (auto split: if_splits)
qed

lemma ms_context:
  "eos_free r \<Longrightarrow> (s', c') \<in> set (ms r (w @ s') c) \<Longrightarrow> \<exists>c1. (t, c1) \<in> set (ms r (w @ t) c0)"
proof (induction r arbitrary: w s' c c' t c0)
  case (Cls p)
  then show ?case by (cases w) (auto split: if_splits list.splits)
next
  case Eps then show ?case by simp
next
  case (Seq a b)
  from Seq.prems(2) obtain s1 c1 where 1: "(s1, c1) \<in> set (ms a (w @ s') c)"
    and 2: "(s', c') \<in> set (ms b s1 c1)" by auto
  from ms_decompose[OF 1] obtain w1 where w1: "w @ s' = w1 @ s1" by blast
  from ms_decompose[OF 2] obtain w2 where w2: "s1 = w2 @ s'" by blast
  from w1 w2 have w: "w = w1 @ w2" by simp
  from 1 w1 have "(w2 @ s', c1) \<in> set (ms a (w1 @ w2 @ s') c)" using w2 by simp
  from Seq.IH(1)[OF _ this, of "w2 @ t" c0] Seq.prems(1)
  obtain c2 where c2: "(w2 @ t, c2) \<in> set (ms a (w1 @ w2 @ t) c0)" by auto
  from 2 w2 have "(s', c') \<in> set (ms b (w2 @ s') c1)" by simp
  from Seq.IH(2)[OF _ this, of t c2] Seq.prems(1)
  obtain c3 where c3: "(t, c3) \<in> set (ms b (w2 @ t) c2)" by auto
  show ?case using c2 c3 w by (intro exI[of _ c3]) force
next
  case (Alt a b)
  from Alt.prems(2) have "(s', c') \<in> set (ms a (w @ s') c) \<or> (s', c') \<in> set (ms b (w @ s') c)" by simp
  then show ?case
  proof
    assume "(s', c') \<in> set (ms a (w @ s') c)"
    from Alt.IH(1)[OF _ this, of t c0] Alt.prems(1) show ?thesis by auto
  next
    assume "(s', c') \<in> set (ms b (w @ s') c)"
    from Alt.IH(2)[OF _ this, of t c0] Alt.prems(1) show ?thesis by auto
  qed
next
  case (Star p)
  then have "s' \<in> set (star_ends p (w @ s'))" by auto
  then obtain w' where "w @ s' = w' @ s'" "\<forall>x\<in>set w'. p x" using star_ends_iff[of s' p "w @ s'"] by blast
  then have "\<forall>x\<in>set w. p x" by simp
  then have "t \<in> set (star_ends p (w @ t))" using star_ends_iff[of t p "w @ t"] by blast
  then show ?case by auto
next
  case (Grp n a)
  from Grp.prems(2) obtain c1 where "(s', c1) \<in> set (ms a (w @ s') c)" by auto
  from Grp.IH[OF _ this, of t c0] Grp.prems(1) obtain c2 where "(t, c2) \<in> set (ms a (w @ t) c0)" by auto
  then show ?case by force
next
  case Eos then show ?case by simp
qed

lemma re_search_None_unmatched: "re_search r s = None \<longleftrightarrow> unmatched r s"
proof (induction s)
  case Nil
  then show ?case by (auto simp: unmatched_def re_match_def split: list.splits prod.splits)
next
  case (Cons x xs)
  have "unmatched r (x # xs) \<longleftrightarrow> ms r (x # xs) [] = [] \<and> unmatched r xs"
    unfolding unmatched_def by (auto simp: suffix_Cons)
  with Cons show ?case
    by (auto simp: re_match_def split: list.splits prod.splits option.splits)
qed

lemma unmatched_suffix: "unmatched r s \<Longrightarrow> suffix v s \<Longrightarrow> unmatched r v"
  unfolding unmatched_def using suffix_order.trans by blast

lemma re_sub_Nil: "re_sub r repl [] = (if ms r [] [] = [] then [] else repl)"
  by (subst re_sub.simps) (auto split: list.splits)

lemma ms_shorter:
  assumes "\<not> nullable r" "ms r s [] = (s', c) # rest"
  shows "length s' < length s" "suffix s' s"
proof -
  have "(s', c) \<in> set (ms r s [])" using assms(2) by simp
  from ms_decompose[OF this] assms(1) obtain w where "s = w @ s'" "w \<noteq> []" by blast
  then show "length s' < length s" "suffix s' s" by (auto simp: suffix_def)
qed

lemma re_sub_unfold:
  assumes "\<not> nullable r"
  shows "re_sub r repl s =
     (case ms r s [] of
        [] \<Rightarrow> (case s of [] \<Rightarrow> [] | x # xs \<Rightarrow> x # re_sub r repl xs)
      | (s', c) # _ \<Rightarrow> repl @ re_sub r repl s')"
proof (cases "ms r s []")
  case Nil then show ?thesis by (subst re_sub.simps) simp
next
  case (Cons a rest)
  obtain s' c where a: "a = (s', c)" by (cases a)
  with Cons ms_shorter(1)[OF assms, of s s' c rest] show ?thesis
    by (subst re_sub.simps) simp
qed

lemma prefix_re_sub:
  assumes "\<not> nullable r" "repl \<noteq> []" "\<not> A (hd repl)"
  shows "(\<forall>x\<in>set w. A x) \<Longrightarrow> prefix w (re_sub r repl s) \<Longrightarrow> prefix w s"
proof (induction s arbitrary: w)
  case Nil
  show ?case
  proof (cases "ms r [] []")
    case Nil with Nil.prems show ?thesis by (simp add: re_sub_Nil)
  next
    case (Cons a rest)
    with Nil.prems have "prefix w repl" by (simp add: re_sub_Nil)
    with assms(2,3) Nil.prems(1) have "w = []" by (cases w; cases repl) auto
    then show ?thesis by simp
  qed
next
  case (Cons x xs)
  show ?case
  proof (cases "ms r (x # xs) []")
    case Nil
    then have "re_sub r repl (x # xs) = x # re_sub r repl xs"
      by (subst re_sub_unfold[OF assms(1)]) simp
    with Cons.prems show ?thesis
      by (cases w) (auto dest: Cons.IH)
  next
    case (Cons a rest)
    obtain s' c where "a = (s', c)" by (cases a)
    with Cons have "re_sub r repl (x # xs) = repl @ re_sub r repl s'"
      by (subst re_sub_unfold[OF assms(1)]) simp
    with Cons.prems have "prefix w (repl @ re_sub r repl s')" by simp
    with assms(2,3) Cons.prems(1) have "w = []" by (cases w; cases repl) auto
    then show ?thesis by simp
  qed
qed

lemma unmatched_re_sub:
  assumes r: "eos_free r" "\<not> nullable r"
    and r': "\<not> nullable r'"
    and repl: "repl \<noteq> []" "\<forall>x\<in>set repl. \<not> alphabet r x"
  shows "(\<forall>v. suffix v s \<longrightarrow> ms r' v [] = [] \<longrightarrow> ms r v [] = []) \<Longrightarrow>
         unmatched r (re_sub r' repl s)"
proof (induction "length s" arbitrary: s rule: less_induct)
  case less
  have hd: "\<not> alphabet r (hd repl)" using repl by (cases repl) auto
  have start: "ms r v [] = []" if "v \<noteq> []" "\<not> alphabet r (hd v)" for v
  proof (rule ccontr)
    assume "ms r v [] \<noteq> []"
    then obtain s' c' where "(s', c') \<in> set (ms r v [])" by (cases "ms r v []") auto
    from ms_decompose[OF this] r(2) obtain w where "v = w @ s'" "\<forall>x\<in>set w. alphabet r x" "w \<noteq> []"
      by blast
    with that show False by (cases w) auto
  qed
  have sub: "\<forall>v. suffix v t \<longrightarrow> ms r' v [] = [] \<longrightarrow> ms r v [] = []" if "suffix t s" for t
    using less.prems that suffix_order.trans by blast
  show ?case
  proof (cases "ms r' s []")
    case Nil
    then have rs: "ms r s [] = []" using less.prems by simp
    show ?thesis
    proof (cases s)
      case Nil
      with rs \<open>ms r' s [] = []\<close> show ?thesis
        by (simp add: re_sub_Nil unmatched_def)
    next
      case (Cons x xs)
      let ?y = "re_sub r' repl s"
      have y: "?y = x # re_sub r' repl xs"
        using Nil Cons by (subst re_sub_unfold[OF r']) simp
      have "length xs < length s" "suffix xs s" using Cons by (simp_all add: suffix_Cons)
      then have tl: "unmatched r (re_sub r' repl xs)"
        using less.hyps[of xs] sub[of xs] by blast
      have "ms r ?y [] = []"
      proof (rule ccontr)
        assume "ms r ?y [] \<noteq> []"
        then obtain s' c' where m: "(s', c') \<in> set (ms r ?y [])" by (cases "ms r ?y []") auto
        from ms_decompose[OF m] obtain w where w: "?y = w @ s'" "\<forall>x\<in>set w. alphabet r x" by blast
        then have "prefix w ?y" by simp
        from prefix_re_sub[OF r' repl(1) hd w(2) this] obtain t where t: "s = w @ t"
          by (auto simp: prefix_def)
        from m w(1) have "(s', c') \<in> set (ms r (w @ s') [])" by simp
        from ms_context[OF r(1) this, of t "[]"] obtain c1 where "(t, c1) \<in> set (ms r (w @ t) [])"
          by blast
        with t rs show False by simp
      qed
      then have hdy: "ms r (x # re_sub r' repl xs) [] = []" using y by simp
      show ?thesis unfolding y unmatched_def
      proof (intro allI impI)
        fix v assume "suffix v (x # re_sub r' repl xs)"
        then have "v = x # re_sub r' repl xs \<or> suffix v (re_sub r' repl xs)"
          by (simp add: suffix_Cons)
        with hdy tl show "ms r v [] = []" unfolding unmatched_def by blast
      qed
    qed
  next
    case (Cons a rest)
    obtain s' c where a: "a = (s', c)" by (cases a)
    from ms_shorter[OF r', of s s' c rest] Cons a have sh: "length s' < length s" "suffix s' s" by auto
    have y: "re_sub r' repl s = repl @ re_sub r' repl s'"
      using Cons a by (subst re_sub_unfold[OF r']) simp
    have tl: "unmatched r (re_sub r' repl s')"
      using less.hyps[OF sh(1)] sub[OF sh(2)] by blast
    show ?thesis unfolding y unmatched_def
    proof (intro allI impI)
      fix v assume "suffix v (repl @ re_sub r' repl s')"
      then have "suffix v (re_sub r' repl s') \<or>
          (\<exists>v1. v = v1 @ re_sub r' repl s' \<and> suffix v1 repl)"
        by (simp add: suffix_append)
      then consider "suffix v (re_sub r' repl s')"
        | v1 where "v = v1 @ re_sub r' repl s'" "suffix v1 repl" "v1 \<noteq> []"
        by (metis append_Nil suffix_order.refl)
      then show "ms r v [] = []"
      proof cases
        case 1 with tl show ?thesis by (simp add: unmatched_def)
      next
        case 2
        obtain z zs where v1: "v1 = z # zs" using 2(3) by (cases v1) auto
        with 2(2) have "z \<in> set repl" by (auto simp: suffix_def)
        with repl(2) have "\<not> alphabet r z" by blast
        moreover have "v \<noteq> []" "hd v = z" using 2(1) v1 by simp_all
        ultimately show ?thesis using start[of v] by simp
      qed
    qed
  qed
qed

lemma set_re_sub: "\<not> nullable r \<Longrightarrow> set (re_sub r repl s) \<subseteq> set s \<union> set repl"
proof (induction "length s" arbitrary: s rule: less_induct)
  case less
  show ?case
  proof (cases "ms r s []")
    case Nil
    show ?thesis
    proof (cases s)
      case Nil with \<open>ms r s [] = []\<close> show ?thesis by (simp add: re_sub_Nil)
    next
      case (Cons x xs)
      have "re_sub r repl s = x # re_sub r repl xs"
        using Nil Cons by (subst re_sub_unfold[OF less.prems]) simp
      with Cons less.hyps[of xs] less.prems show ?thesis by auto
    qed
  next
    case (Cons a rest)
    obtain s' c where a: "a = (s', c)" by (cases a)
    from ms_shorter[OF less.prems, of s s' c rest] Cons a have sh: "length s' < length s" "suffix s' s" by auto
    then have ss: "set s' \<subseteq> set s" by (auto simp: suffix_def)
    have "re_sub r repl s = repl @ re_sub r repl s'"
      using Cons a by (subst re_sub_unfold[OF less.prems]) simp
    with ss less.hyps[OF sh(1) less.prems] show ?thesis by auto
  qed
qed

lemma unmatchedD: "unmatched r s \<Longrightarrow> suffix v s \<Longrightarrow> ms r v [] = []"
  by (simp add: unmatched_def)

lemma subs_preserve:
  assumes "eos_free r" "\<not> nullable r" "\<forall>x\<in>C. \<not> alphabet r x"
    and "\<forall>(pat, repl)\<in>set ps. \<not> nullable pat \<and> repl \<noteq> [] \<and> set repl \<subseteq> C"
    and "unmatched r s"
  shows "unmatched r (foldl (\<lambda>s (pat, repl). re_sub pat repl s) s ps)"
  using assms(4,5)
proof (induction ps arbitrary: s)
  case Nil then show ?case by simp
next
  case (Cons p ps)
  obtain pat repl where p: "p = (pat, repl)" by (cases p)
  with Cons.prems(1) have c: "\<not> nullable pat" "repl \<noteq> []" "set repl \<subseteq> C" by auto
  have "\<forall>x\<in>set repl. \<not> alphabet r x" using c(3) assms(3) by blast
  from unmatched_re_sub[OF assms(1,2) c(1,2) this, of s] Cons.prems(2)
  have "unmatched r (re_sub pat repl s)" by (simp add: unmatched_def)
  then show ?case using Cons.IH[of "re_sub pat repl s"] Cons.prems(1) p by simp
qed

lemma subs_unmatched:
  assumes "\<forall>(pat, repl)\<in>set ps. eos_free pat \<and> \<not> nullable pat \<and> repl \<noteq> [] \<and> set repl \<subseteq> C \<and>
             (\<forall>x\<in>C. \<not> alphabet pat x)"
  shows "\<forall>(pat, repl)\<in>set ps. unmatched pat (foldl (\<lambda>s (pat, repl). re_sub pat repl s) s ps)"
  using assms
proof (induction ps arbitrary: s)
  case Nil then show ?case by simp
next
  case (Cons p ps)
  obtain pat repl where p: "p = (pat, repl)" by (cases p)
  with Cons.prems have c: "eos_free pat" "\<not> nullable pat" "repl \<noteq> []" "set repl \<subseteq> C"
    "\<forall>x\<in>C. \<not> alphabet pat x" by auto
  have rest: "\<forall>(pat, repl)\<in>set ps. eos_free pat \<and> \<not> nullable pat \<and> repl \<noteq> [] \<and> set repl \<subseteq> C \<and>
             (\<forall>x\<in>C. \<not> alphabet pat x)" using Cons.prems by simp
  have "\<forall>x\<in>set repl. \<not> alphabet pat x" using c(4,5) by blast
  from unmatched_re_sub[OF c(1,2) c(2,3) this, of s]
  have "unmatched pat (re_sub pat repl s)" by simp
  moreover have "\<forall>(pat, repl)\<in>set ps. \<not> nullable pat \<and> repl \<noteq> [] \<and> set repl \<subseteq> C"
    using rest by auto
  ultimately have "unmatched pat (foldl (\<lambda>s (pat, repl). re_sub pat repl s) (re_sub pat repl s) ps)"
    using subs_preserve[OF c(1,2,5)] by blast
  with Cons.IH[OF rest, of "re_sub pat repl s"] p show ?case by simp
qed

lemma set_subs:
  assumes "\<forall>(pat, repl)\<in>set ps. \<not> nullable pat \<and> set repl \<subseteq> C"
  shows "set (foldl (\<lambda>s (pat, repl). re_sub pat repl s) s ps) \<subseteq> set s \<union> C"
  using assms
proof (induction ps arbitrary: s)
  case Nil then show ?case by simp
next
  case (Cons p ps)
  obtain pat repl where p: "p = (pat, repl)" by (cases p)
  with Cons.prems have c: "\<not> nullable pat" "set repl \<subseteq> C" by auto
  from set_re_sub[OF c(1), of repl s] c(2) have "set (re_sub pat repl s) \<subseteq> set s \<union> C" by blast
  moreover have "set (foldl (\<lambda>s (pat, repl). re_sub pat repl s) (re_sub pat repl s) ps)
       \<subseteq> set (re_sub pat repl s) \<union> C"
    using Cons.IH[of "re_sub pat repl s"] Cons.prems by simp
  ultimately show ?case using p by auto
qed

lemma literal_absent:
  assumes "eos_free r" "unmatched r s" "ms r b [] \<noteq> []"
  shows "\<not> py_in (a @ b) s"
proof
  assume "py_in (a @ b) s"
  then obtain u v where s: "s = u @ (a @ b) @ v" by (auto simp: py_in_def sublist_def)
  from assms(3) obtain s' c' where m: "(s', c') \<in> set (ms r b [])" by (cases "ms r b []") auto
  from ms_decompose[OF m] obtain w where w: "b = w @ s'" by blast
  with m have "(s', c') \<in> set (ms r (w @ s') [])" by simp
  from ms_context[OF assms(1) this, of "s' @ v" "[]"] w have "ms r (b @ v) [] \<noteq> []" by auto
  moreover have "suffix (b @ v) s" using s by (auto simp: suffix_def)
  ultimately show False using unmatchedD[OF assms(2)] by blast
qed

lemma patterns_split:
  "EMAIL_TOKEN_PATTERNS = butlast EMAIL_TOKEN_PATTERNS @ [(fst (last EMAIL_TOKEN_PATTERNS), [])]"
  by (simp add: EMAIL_TOKEN_PATTERNS_def Let_def ustr_def)

lemma patterns_safe:
  "\<forall>(pat, repl)\<in>set (butlast EMAIL_TOKEN_PATTERNS).
     eos_free pat \<and> \<not> nullable pat \<and> repl \<noteq> [] \<and> set repl \<subseteq> {64, 46} \<and>
     (\<forall>x\<in>{64, 46}. \<not> alphabet pat x)"
  by (simp add: EMAIL_TOKEN_PATTERNS_def Let_def rx_eval)

lemma last_pattern_safe:
  "eos_free (fst (last EMAIL_TOKEN_PATTERNS)) \<and> \<not> nullable (fst (last EMAIL_TOKEN_PATTERNS)) \<and>
   (\<forall>x\<in>{64, 46}. \<not> alphabet (fst (last EMAIL_TOKEN_PATTERNS)) x)"
  by (simp add: EMAIL_TOKEN_PATTERNS_def Let_def rx_eval)

lemma literal_matches:
  "EMAIL_TOKEN_PATTERNS ! 0 \<in> set (butlast EMAIL_TOKEN_PATTERNS)"
  "EMAIL_TOKEN_PATTERNS ! 4 \<in> set (butlast EMAIL_TOKEN_PATTERNS)"
  "ms (fst (EMAIL_TOKEN_PATTERNS ! 0)) (ustr ''[at]'') [] \<noteq> []"
  "ms (fst (EMAIL_TOKEN_PATTERNS ! 0)) (ustr ''at}'') [] \<noteq> []"
  "ms (fst (EMAIL_TOKEN_PATTERNS ! 4)) (ustr ''[dot]'') [] \<noteq> []"
  "ms (fst (EMAIL_TOKEN_PATTERNS ! 4)) (ustr ''{dot}'') [] \<noteq> []"
  by (simp_all add: EMAIL_TOKEN_PATTERNS_def Let_def rx_eval)

text \<open>
  The other late step fails in the same way: in \<open>x\<close>, U+FF08, \<open>dot\<close>, U+FF09, \<open>y\<close> the
  full-width parentheses become ASCII ones only after the patterns have been applied,
  so the token \<open>(dot)\<close> is rewritten by the second application only.
\<close>

lemma deobfuscate_fullwidth_example:
  "deobfuscate (ustr ''x'' @ [65288] @ ustr ''dot'' @ [65289] @ ustr ''y'') = ustr ''x(dot)y''"
  "deobfuscate (ustr ''x(dot)y'') = ustr ''x.y''"
  by (simp_all add: deobfuscate_def EMAIL_TOKEN_PATTERNS_def Let_def rx_eval re_sub.simps)

lemma example_no_removal:
  "re_search (fst (last EMAIL_TOKEN_PATTERNS)) (ustr ''john.smith [at] cs.example.edu'') = None"
  by (simp add: EMAIL_TOKEN_PATTERNS_def Let_def rx_eval re_match_def)

text \<open>
  Claim C6, amended. The rewrite of \<open>normalize_email\<close> (the substitutions of
  \<^verbatim>\<open>EMAIL_TOKEN_PATTERNS\<close> in order, followed by the literal replacements) is idempotent
  on every text in which the last pattern, \<^verbatim>\<open>\s*\(remove\)|\(no\s*spam\)\<close> in any letter
  case, is found nowhere and in which neither full-width parenthesis (U+FF08, U+FF09)
  occurs. These are the two late steps of the rewrite: the deletion that the last
  pattern makes and the replacement of the full-width parentheses come after the
  patterns whose tokens they can complete.
\<close>

theorem deobfuscate_idempotent_no_late_tokens:
  assumes h1: "re_search (fst (last EMAIL_TOKEN_PATTERNS)) text = None"
    and h2: "65288 \<notin> set text" and h3: "65289 \<notin> set text"
  shows "deobfuscate (deobfuscate text) = deobfuscate text"
proof -
  let ?PS = "butlast EMAIL_TOKEN_PATTERNS"
  let ?P9 = "fst (last EMAIL_TOKEN_PATTERNS)"
  define S where "S = foldl (\<lambda>s (pat, repl). re_sub pat repl s) text ?PS"
  have safe8: "\<forall>(pat, repl)\<in>set ?PS. \<not> nullable pat \<and> repl \<noteq> [] \<and> set repl \<subseteq> {64, 46}"
    using patterns_safe by fast
  have safe8': "\<forall>(pat, repl)\<in>set ?PS. \<not> nullable pat \<and> set repl \<subseteq> {64, 46}"
    using patterns_safe by fast
  have u9: "unmatched ?P9 S"
    unfolding S_def using last_pattern_safe h1
    by (intro subs_preserve[where C = "{64, 46}"] safe8) (simp_all add: re_search_None_unmatched)
  have all8: "\<forall>(pat, repl)\<in>set ?PS. unmatched pat S"
    unfolding S_def by (rule subs_unmatched[OF patterns_safe])
  have "foldl (\<lambda>s (pat, repl). re_sub pat repl s) text EMAIL_TOKEN_PATTERNS =
        foldl (\<lambda>s (pat, repl). re_sub pat repl s) text (?PS @ [(?P9, [])])"
    using patterns_split by simp
  also have "\<dots> = re_sub ?P9 [] S" by (simp add: S_def)
  also have "\<dots> = S" using u9 by (simp add: re_sub_no_match re_search_None_unmatched)
  finally have fold: "foldl (\<lambda>s (pat, repl). re_sub pat repl s) text EMAIL_TOKEN_PATTERNS = S" .
  have setS: "set S \<subseteq> set text \<union> {64, 46}"
    unfolding S_def by (rule set_subs[OF safe8'])
  have fw: "\<not> py_in [65288] S" "\<not> py_in [65289] S"
    using setS h2 h3 by (auto simp: py_in_single)
  have p1: "unmatched (fst (EMAIL_TOKEN_PATTERNS ! 0)) S" "eos_free (fst (EMAIL_TOKEN_PATTERNS ! 0))"
    using all8 patterns_safe literal_matches(1) by (fastforce, fastforce)
  have p5: "unmatched (fst (EMAIL_TOKEN_PATTERNS ! 4)) S" "eos_free (fst (EMAIL_TOKEN_PATTERNS ! 4))"
    using all8 patterns_safe literal_matches(2) by (fastforce, fastforce)
  have l1: "\<not> py_in (ustr ''[at]'') S"
    using literal_absent[OF p1(2) p1(1) literal_matches(3), of "[]"] by simp
  have "ustr ''{at}'' = ustr ''{'' @ ustr ''at}''" by (simp add: ustr_def)
  then have l2: "\<not> py_in (ustr ''{at}'') S"
    using literal_absent[OF p1(2) p1(1) literal_matches(4), of "ustr ''{''"] by simp
  have l3: "\<not> py_in (ustr ''[dot]'') S"
    using literal_absent[OF p5(2) p5(1) literal_matches(5), of "[]"] by simp
  have l4: "\<not> py_in (ustr ''{dot}'') S"
    using literal_absent[OF p5(2) p5(1) literal_matches(6), of "[]"] by simp
  have "set EMAIL_TOKEN_PATTERNS = set (?PS @ [(?P9, [])])" using patterns_split by simp
  then have "\<forall>(pat, repl)\<in>set EMAIL_TOKEN_PATTERNS. re_search pat S = None"
    using all8 u9 by (auto simp: re_search_None_unmatched)
  then have tf: "token_free S"
    using fw l1 l2 l3 l4 by (simp add: token_free_def list_all_iff)
  have d: "deobfuscate text = S"
    using fw l1 l2 l3 l4 by (simp add: deobfuscate_def Let_def fold py_replace_absent)
  show ?thesis unfolding d by (rule deobfuscate_token_free[OF tf])
qed

theorem deobfuscate_idempotent_no_late_tokens_witness:
  "re_search (fst (last EMAIL_TOKEN_PATTERNS)) (ustr ''john.smith [at] cs.example.edu'') = None \<and>
   65288 \<notin> set (ustr ''john.smith [at] cs.example.edu'') \<and>
   65289 \<notin> set (ustr ''john.smith [at] cs.example.edu'') \<and>
   deobfuscate (deobfuscate (ustr ''john.smith [at] cs.example.edu'')) =
   deobfuscate (ustr ''john.smith [at] cs.example.edu'')"
proof -
  have h2: "65288 \<notin> set (ustr ''john.smith [at] cs.example.edu'')"
    and h3: "65289 \<notin> set (ustr ''john.smith [at] cs.example.edu'')"
    by (simp_all add: ustr_def)
  from deobfuscate_idempotent_no_late_tokens[OF example_no_removal h2 h3] example_no_removal h2 h3
  show ?thesis by blast
qed

subsection \<open>Extraction\<close>

lemma example_words:
  "re_split (Grp 1 (Plus is_space)) [1] (ustr ''john.smith [at] cs.example.edu'') =
   [ustr ''john.smith'', ustr '' '', ustr ''[at]'', ustr '' '', ustr ''cs.example.edu'']"
  by (simp add: re_split_def re_split_go.simps group_def rx_eval)

lemma example_search:
  "re_search BASIC_EMAIL_RE (ustr ''john.smith@cs.example.edu'') =
   Some (ustr ''john.smith@cs.example.edu'', [], [])"
  by (simp add: BASIC_EMAIL_RE_def re_match_def rx_eval upto_numeral times_numeral)

lemma example_normalize:
  "normalize_email U (ustr ''john.smith [at] cs.example.edu'') =
   Some (ustr ''john.smith@cs.example.edu'')"
proof -
  have "ustr ''john.smith [at] cs.example.edu'' \<noteq> []" by (simp add: ustr_def)
  then show ?thesis
    by (simp add: normalize_email_def Let_def example_deobfuscate example_search)
qed

lemma example_window:
  "concat (take 5 (drop 0 [ustr ''john.smith'', ustr '' '', ustr ''[at]'', ustr '' '',
                           ustr ''cs.example.edu''])) =
   ustr ''john.smith [at] cs.example.edu''"
  by (simp add: ustr_def)

text \<open>
  Claim C7: \<open>extract_emails\<close> applied to \<open>john.smith [at] cs.example.edu\<close> returns a list
  that contains \<open>john.smith@cs.example.edu\<close>. The address is found in the window of five
  consecutive pieces of the split at white space, which here is the whole text.
\<close>

theorem extract_emails_example:
  "ustr ''john.smith@cs.example.edu'' \<in>
     set (extract_emails U (ustr ''john.smith [at] cs.example.edu''))"
proof -
  let ?t = "ustr ''john.smith [at] cs.example.edu''"
  let ?ws = "re_split (Grp 1 (Plus is_space)) [1] ?t"
  have ne: "?t \<noteq> []" by (simp add: ustr_def)
  have len: "[0 ..< length ?ws - 4] = [0]" unfolding example_words by simp
  have "concat (map (\<lambda>i. truthy (normalize_email U (concat (take 5 (drop i ?ws)))))
                    [0 ..< length ?ws - 4])
        = [ustr ''john.smith@cs.example.edu'']"
    unfolding len unfolding example_words
    by (simp only: list.map concat.simps example_window example_normalize append_Nil2)
       (simp add: truthy_def ustr_def)
  then show ?thesis
    using ne by (simp add: extract_emails_def Let_def set_uniq)
qed

section \<open>Properties of the crawl\<close>

subsection \<open>Profile pages\<close>

lemma pick_best_email_allowed:
  assumes "pick_best_email U name es rd \<noteq> []"
  shows "email_allowed U (pick_best_email U name es rd) rd"
proof (cases "filter (\<lambda>e. email_allowed U e rd) es = []")
  case True
  then have "\<forall>e\<in>set es. \<not> email_allowed U e rd" by (simp add: filter_empty_conv)
  from pick_loop_none_allowed[OF this] assms show ?thesis by (simp add: pick_best_email_def)
next
  case False
  from pick_loop_None[OF False, of name "[]"]
  obtain pre post where
    "filter (\<lambda>e. email_allowed U e rd) es = pre @ pick_best_email U name es rd # post"
    unfolding pick_best_email_def by blast
  then have "pick_best_email U name es rd \<in> set (filter (\<lambda>e. email_allowed U e rd) es)"
    by (metis in_set_conv_decomp)
  then show ?thesis by simp
qed

lemma parse_profile_email:
  assumes "parse_profile U E h b rd = (n, s, re, e, ph)" "e \<noteq> []"
  shows "email_allowed U e rd"
  using assms pick_best_email_allowed
  by (auto simp: parse_profile_def Let_def split: if_splits)

subsection \<open>The client\<close>

lemma client_allowed_fields [simp]:
  "results (snd (client_allowed E url st)) = results st"
  "visited (snd (client_allowed E url st)) = visited st"
  "events (snd (client_allowed E url st)) = events st"
  by (simp_all add: client_allowed_def split_beta)

lemma client_fetch_fields [simp]:
  "results (snd (client_fetch E ev url st)) = results st"
  "visited (snd (client_fetch E ev url st)) = visited st"
  "events (snd (client_fetch E ev url st)) = events st @ [ev]"
  by (simp_all add: client_fetch_def split_beta)

subsection \<open>The requests of one site\<close>

lemma listing_urls_append [simp]: "listing_urls (a @ b) = listing_urls a @ listing_urls b"
  by (induction a rule: listing_urls.induct) auto

lemma profile_urls_append [simp]: "profile_urls (a @ b) = profile_urls a @ profile_urls b"
  by (induction a rule: profile_urls.induct) auto

lemma profiles_loop_listings:
  "listing_urls (events (snd (profiles_loop U E mp rd nu ps st))) = listing_urls (events st)"
  by (induction ps arbitrary: st) (auto simp: Let_def split_beta)

lemma profiles_loop_fetched_once:
  "fetched_once st \<Longrightarrow> fetched_once (snd (profiles_loop U E mp rd nu ps st))"
proof (induction ps arbitrary: st)
  case Nil then show ?case by simp
next
  case (Cons p ps)
  let ?u = "if link_profile_url p = [] then nu else link_profile_url p"
  show ?case
  proof (cases "reached mp (results st) \<or> ?u \<in> visited st")
    case True
    with Cons show ?thesis by (auto simp: Let_def)
  next
    case False
    let ?st1 = "snd (client_allowed E ?u (st\<lparr>visited := insert ?u (visited st)\<rparr>))"
    let ?st2 = "snd (client_fetch E (Profile ?u) ?u ?st1)"
    have f1: "fetched_once ?st1" using Cons.prems False
      by (auto simp: fetched_once_def)
    have f2: "fetched_once ?st2" using Cons.prems False
      by (auto simp: fetched_once_def)
    have f3: "fetched_once (?st2\<lparr>results := rs\<rparr>)" for rs
      using f2 by (simp add: fetched_once_def)
    show ?thesis using False Cons.IH[OF f1] Cons.IH[OF f2] Cons.IH[OF f3] f3
      by (simp add: Let_def split_beta)
  qed
qed

lemma pages_loop_fetched_once:
  "fetched_once st \<Longrightarrow> fetched_once (pages_loop U E mp rd pages nu st)"
proof (induction "MAX_PAGINATION_PAGES - pages" arbitrary: pages nu st)
  case 0
  then show ?case by (subst pages_loop.simps) simp
next
  case (Suc n)
  let ?st1 = "snd (client_allowed E nu st)"
  let ?st2 = "snd (client_fetch E (Listing nu) nu ?st1)"
  let ?html = "the (fst (client_fetch E (Listing nu) nu ?st1))"
  let ?st3 = "snd (profiles_loop U E mp rd nu (discover_profiles E ?html nu) ?st2)"
  have f1: "fetched_once ?st1" using Suc.prems by (simp add: fetched_once_def)
  have f2: "fetched_once ?st2" using Suc.prems by (simp add: fetched_once_def)
  have f3: "fetched_once ?st3" using f2 by (rule profiles_loop_fetched_once)
  have rec: "fetched_once (pages_loop U E mp rd (pages + 1) nxt ?st3)" for nxt
    using Suc.hyps(2) by (intro Suc.hyps(1) f3) simp
  show ?case
    using Suc.prems f1 f2 f3 rec
    by (subst pages_loop.simps) (simp add: Let_def split_beta split: option.splits)
qed

lemma pages_loop_listings:
  "length (listing_urls (events (pages_loop U E mp rd pages nu st))) \<le>
   length (listing_urls (events st)) + (MAX_PAGINATION_PAGES - pages)"
proof (induction "MAX_PAGINATION_PAGES - pages" arbitrary: pages nu st)
  case 0
  then show ?case by (subst pages_loop.simps) simp
next
  case (Suc n)
  let ?st1 = "snd (client_allowed E nu st)"
  let ?st2 = "snd (client_fetch E (Listing nu) nu ?st1)"
  let ?html = "the (fst (client_fetch E (Listing nu) nu ?st1))"
  let ?st3 = "snd (profiles_loop U E mp rd nu (discover_profiles E ?html nu) ?st2)"
  have l3: "listing_urls (events ?st3) = listing_urls (events st) @ [nu]"
    by (simp add: profiles_loop_listings)
  have rec: "length (listing_urls (events (pages_loop U E mp rd (pages + 1) nxt ?st3))) \<le>
     length (listing_urls (events ?st3)) + (MAX_PAGINATION_PAGES - (pages + 1))" for nxt
    using Suc.hyps(2) by (intro Suc.hyps(1)) simp
  have rec': "length (listing_urls (events (pages_loop U E mp rd (Suc pages) nxt ?st3))) \<le>
     length (listing_urls (events st)) + (MAX_PAGINATION_PAGES - pages)" for nxt
    using rec[of nxt] Suc.hyps(2) unfolding l3 by simp
  have pos: "0 < MAX_PAGINATION_PAGES - pages" using Suc.hyps(2) by simp
  show ?case
    using l3 rec' pos
    by (subst pages_loop.simps) (auto simp add: Let_def split_beta split: option.splits)
qed

lemma pages_loop_self_cycle:
  assumes "nu \<noteq> []" "pages < MAX_PAGINATION_PAGES"
    and "client_allowed E nu st = (True, st1)"
    and "client_fetch E (Listing nu) nu st1 = (Some html, st2)" "html \<noteq> []"
    and "find_next_page E html nu = Some nu"
  shows "pages_loop U E mp rd pages nu st =
           snd (profiles_loop U E mp rd nu (discover_profiles E html nu) st2)"
    and "listing_urls (events (pages_loop U E mp rd pages nu st)) = listing_urls (events st) @ [nu]"
proof -
  show a: "pages_loop U E mp rd pages nu st =
           snd (profiles_loop U E mp rd nu (discover_profiles E html nu) st2)"
    using assms by (subst pages_loop.simps) (simp add: Let_def split_beta falsy_def)
  have "events st1 = events st" using assms(3) client_allowed_fields(3)[of E nu st] by simp
  moreover have "events st2 = events st1 @ [Listing nu]"
    using assms(4) client_fetch_fields(3)[of E "Listing nu" nu st1] by simp
  ultimately show "listing_urls (events (pages_loop U E mp rd pages nu st)) = listing_urls (events st) @ [nu]"
    unfolding a by (simp add: profiles_loop_listings)
qed

subsection \<open>The addresses of the rows\<close>

lemma kept_parse_profile:
  assumes "fst (snd (snd (snd (parse_profile U E h b rd)))) \<noteq> []"
  shows "kept U E rd (fst (snd (snd (snd (parse_profile U E h b rd))))) b"
proof -
  obtain n s re e ph where p: "parse_profile U E h b rd = (n, s, re, e, ph)"
    by (metis prod.collapse)
  with assms have "e \<noteq> []" by simp
  with p parse_profile_email[OF p] show ?thesis unfolding kept_def by fastforce
qed

lemma profiles_loop_kept:
  assumes "\<forall>r\<in>set (results st). kept U E rd (r_email r) (r_profile_url r)"
  shows "\<forall>r\<in>set (results (snd (profiles_loop U E mp rd nu ps st))).
           kept U E rd (r_email r) (r_profile_url r)"
  using assms
proof (induction ps arbitrary: st)
  case Nil then show ?case by simp
next
  case (Cons p ps)
  define u where "u = (if link_profile_url p = [] then nu else link_profile_url p)"
  define st1 where "st1 = snd (client_allowed E u (st\<lparr>visited := insert u (visited st)\<rparr>))"
  define f where "f = client_fetch E (Profile u) u st1"
  define pp where "pp = parse_profile U E (the (fst f)) u rd"
  define e where "e = fst (snd (snd (snd pp)))"
  define st3 where "st3 = (snd f)\<lparr>results := results (snd f) @
     [\<lparr>r_name = (if fst pp = [] then link_name p else fst pp),
       r_school = fst (snd pp), r_research_area = fst (snd (snd pp)),
       r_email = e, r_phone = snd (snd (snd (snd pp))), r_profile_url = u\<rparr>]\<rparr>"
  let ?Q = "\<lambda>st. \<forall>r\<in>set (results st). kept U E rd (r_email r) (r_profile_url r)"
  let ?L = "\<lambda>st. snd (profiles_loop U E mp rd nu ps st)"
  have step: "snd (profiles_loop U E mp rd nu (p # ps) st) =
     (if reached mp (results st) then st
      else if u \<in> visited st then ?L st
      else if \<not> fst (client_allowed E u (st\<lparr>visited := insert u (visited st)\<rparr>)) then ?L st1
      else if falsy (fst f) then ?L (snd f)
      else if e = [] then ?L (snd f)
      else if reached mp (results st3) then st3 else ?L st3)"
    unfolding u_def st1_def f_def pp_def e_def st3_def
    by (simp add: Let_def split_beta)
  have q1: "?Q st1" using Cons.prems by (simp add: st1_def)
  have q2: "?Q (snd f)" using q1 by (simp add: f_def)
  have q3: "?Q st3" if "e \<noteq> []"
    using q2 that kept_parse_profile[of U E "the (fst f)" u rd]
    by (simp add: st3_def e_def pp_def)
  show ?case
    unfolding step using Cons.prems Cons.IH[OF Cons.prems] Cons.IH[OF q1] Cons.IH[OF q2] Cons.IH[OF q3] q3
    by simp
qed

lemma pages_loop_kept:
  assumes "\<forall>r\<in>set (results st). kept U E rd (r_email r) (r_profile_url r)"
  shows "\<forall>r\<in>set (results (pages_loop U E mp rd pages nu st)).
           kept U E rd (r_email r) (r_profile_url r)"
  using assms
proof (induction "MAX_PAGINATION_PAGES - pages" arbitrary: pages nu st)
  case 0
  then show ?case by (subst pages_loop.simps) simp
next
  case (Suc n)
  let ?Q = "\<lambda>st. \<forall>r\<in>set (results st). kept U E rd (r_email r) (r_profile_url r)"
  let ?st1 = "snd (client_allowed E nu st)"
  let ?st2 = "snd (client_fetch E (Listing nu) nu ?st1)"
  let ?html = "the (fst (client_fetch E (Listing nu) nu ?st1))"
  let ?st3 = "snd (profiles_loop U E mp rd nu (discover_profiles E ?html nu) ?st2)"
  have q1: "?Q ?st1" using Suc.prems by simp
  have q2: "?Q ?st2" using Suc.prems by simp
  have q3: "?Q ?st3" using q2 by (rule profiles_loop_kept)
  have rec: "?Q (pages_loop U E mp rd (pages + 1) nxt ?st3)" for nxt
    using Suc.hyps(2) by (intro Suc.hyps(1) q3) simp
  show ?case
    using Suc.prems q1 q2 q3 rec
    by (subst pages_loop.simps) (simp add: Let_def split_beta split: option.splits)
qed

lemma process_site_kept:
  "\<forall>r\<in>set (results (process_site U E site mp w)).
     kept U E (registered_domain E site) (r_email r) (r_profile_url r)"
  unfolding process_site_def by (rule pages_loop_kept) simp

lemma rows_loop_from:
  assumes "x \<in> set (fst (rows_loop E tr mp uni rs (rows, w)))"
  shows "x \<in> set rows \<or> (\<exists>r\<in>set rs. row_email x = r_email r \<and> row_profile_url x = r_profile_url r)"
  using assms
proof (induction rs arbitrary: rows w)
  case Nil then show ?case by simp
next
  case (Cons r rs)
  show ?case
  proof (cases "x \<in> set rows")
    case True then show ?thesis by simp
  next
    case False
    let ?n = "maybe_translate E tr (r_name r) w"
    let ?re = "maybe_translate E tr (r_research_area r) (snd ?n)"
    let ?row = "\<lparr>row_university = uni, row_school = r_school r, row_name = fst ?n,
                  row_email = r_email r, row_phone = r_phone r,
                  row_research_area = fst ?re, row_profile_url = r_profile_url r\<rparr>"
    from Cons.prems have "x \<in> set (rows @ [?row]) \<or>
        x \<in> set (fst (rows_loop E tr mp uni rs (rows @ [?row], snd ?re)))"
      by (auto simp add: Let_def split_beta split: if_splits)
    then show ?thesis
    proof
      assume "x \<in> set (rows @ [?row])"
      with False have "x = ?row" by simp
      then show ?thesis by simp
    next
      assume "x \<in> set (fst (rows_loop E tr mp uni rs (rows @ [?row], snd ?re)))"
      from Cons.IH[OF this] False show ?thesis by auto
    qed
  qed
qed

lemma sites_loop_accepted:
  assumes "\<forall>x\<in>set rows. accepted U E all x" "set sites \<subseteq> set all"
  shows "\<forall>x\<in>set (fst (sites_loop U E uni mp tr sites (rows, w))). accepted U E all x"
  using assms
proof (induction sites arbitrary: rows w)
  case Nil then show ?case by simp
next
  case (Cons site sites)
  let ?s = "py_strip site"
  show ?case
  proof (cases "site_ok U ?s")
    case False
    with Cons show ?thesis by (simp add: Let_def)
  next
    case True
    let ?st = "process_site U E ?s mp w"
    let ?uni = "if uni \<noteq> [] then uni else infer_university_from_url E ?s"
    let ?rl = "rows_loop E tr mp ?uni (results ?st) (rows, world ?st)"
    have acc: "\<forall>x\<in>set (fst ?rl). accepted U E all x"
    proof
      fix x assume "x \<in> set (fst ?rl)"
      from rows_loop_from[OF this] show "accepted U E all x"
      proof
        assume "x \<in> set rows" with Cons.prems show ?thesis by simp
      next
        assume "\<exists>r\<in>set (results ?st). row_email x = r_email r \<and> row_profile_url x = r_profile_url r"
        then obtain r where r: "r \<in> set (results ?st)" "row_email x = r_email r"
          "row_profile_url x = r_profile_url r" by blast
        from process_site_kept[of U E ?s mp w] r
        have "kept U E (registered_domain E ?s) (row_email x) (row_profile_url x)" by simp
        moreover have "site \<in> set all" using Cons.prems(2) by simp
        ultimately show ?thesis using True unfolding accepted_def by blast
      qed
    qed
    have sub: "set sites \<subseteq> set all" using Cons.prems(2) by simp
    have "\<forall>x\<in>set (fst (sites_loop U E uni mp tr sites (fst ?rl, snd ?rl))). accepted U E all x"
      using acc sub by (rule Cons.IH)
    with acc True show ?thesis by (simp add: Let_def split_beta)
  qed
qed

lemma dedup_subset: "set (dedup U seen ps) \<subseteq> set ps"
  by (induction ps arbitrary: seen) auto

lemma scrape_sites_accepted:
  "\<forall>x\<in>set (scrape_sites U E sites uni mp tr w). accepted U E sites x"
proof -
  have "\<forall>x\<in>set (fst (collect_rows U E sites uni mp tr w)). accepted U E sites x"
    unfolding collect_rows_def by (rule sites_loop_accepted) simp_all
  then show ?thesis unfolding scrape_sites_def using dedup_subset by blast
qed

lemma parse_profile_no_email:
  assumes "pick_best_email U (strip_trailing_punct (extract_name E html))
             (extract_emails U (profile_text E html)) rd = []"
  shows "parse_profile U E html base rd = ([], [], [], [], [])"
  using assms by (simp add: parse_profile_def Let_def)

subsection \<open>The removal of duplicates\<close>






subsection \<open>A client and a translator whose answers do not depend on the world\<close>











subsection \<open>The example site\<close>

lemmas crawl_eval = demo_env_def rank_eval parse_profile_def profile_text_def looks_like_human_name_def
  strip_trailing_punct_def TRAIL_CLEAN_def py_strip_def extract_emails_def normalize_email_def
  deobfuscate_def EMAIL_TOKEN_PATTERNS_def BASIC_EMAIL_RE_def re_sub.simps re_split_def
  re_split_go.simps truthy_def upto_numeral

lemma ustr_eq_iff [simp]: "ustr a = ustr b \<longleftrightarrow> a = b"
  unfolding ustr_def by (rule inj_map_eq_map) (simp add: inj_on_def)

lemma ustr_Nil_iff [simp]: "ustr a = [] \<longleftrightarrow> a = []" "[] = ustr a \<longleftrightarrow> a = []"
  by (auto simp: ustr_def)

lemma demo_fields:
  "registered_domain demo_env url = ustr ''example.edu''"
  "infer_university_from_url demo_env url = ustr ''Example University''"
  "urljoin demo_env base h = h"
  "allowed_by_robots demo_env url w = (True, w)"
  "fetch demo_env url w =
     (if url = ustr ''http://example.edu/staff'' then Some (ustr ''L1'')
      else if url = ustr ''http://example.edu/staff2'' then Some (ustr ''L2'')
      else if url = ustr ''http://example.edu/ann'' then Some (ustr ''A'')
      else if url = ustr ''http://example.edu/bob'' then Some (ustr ''B'')
      else if url = ustr ''http://example.edu/carl'' then Some (ustr ''C'')
      else None, w + 1)"
  "translate demo_env t w = (t, w)"
  "discover_profiles demo_env html base =
     (if html = ustr ''L1''
      then [\<lparr>link_name = ustr ''Ann Lee'', link_profile_url = ustr ''http://example.edu/ann''\<rparr>,
            \<lparr>link_name = ustr ''Bob Ray'', link_profile_url = ustr ''http://example.edu/bob''\<rparr>]
      else if html = ustr ''L2''
      then [\<lparr>link_name = ustr ''Ann Lee'', link_profile_url = ustr ''http://example.edu/ann''\<rparr>,
            \<lparr>link_name = ustr ''Carl Orff'', link_profile_url = ustr ''http://example.edu/carl''\<rparr>]
      else [])"
  by (simp_all add: demo_env_def)

lemma demo_parse:
  "parse_profile ascii_unicode demo_env (ustr ''A'') b (ustr ''example.edu'') =
     (ustr ''Ann Lee'', [], [], ustr ''ann.lee@example.edu'', [])"
  "parse_profile ascii_unicode demo_env (ustr ''B'') b (ustr ''example.edu'') = ([], [], [], [], [])"
  "parse_profile ascii_unicode demo_env (ustr ''C'') b (ustr ''example.edu'') =
     (ustr ''Carl Orff'', [], [], ustr ''carl@example.edu'', [])"
  by (simp_all add: crawl_eval del: ustr_eq_iff ustr_Nil_iff)

lemma demo_next:
  "find_next_page demo_env (ustr ''L1'') base = Some (ustr ''http://example.edu/staff2'')"
  "find_next_page demo_env (ustr ''L2'') base = Some (ustr ''http://example.edu/staff2'')"
  "find_next_page demo_env (ustr ''A'') base = None"
  by (simp_all add: find_next_page_def demo_env_def href_or_empty_def is_next_text_def text_of_def
        text_of_str_def strip_trailing_punct_def TRAIL_CLEAN_def py_strip_def NEXT_TEXTS_def
        NEXT_TEXT_RE_def re_fullmatch_def re_sub.simps rx_eval Let_def
        del: ustr_eq_iff ustr_Nil_iff)

lemmas crawl_steps = process_site_def pages_loop.simps client_allowed_def client_fetch_def
  demo_fields demo_parse demo_next falsy_def reached_def MAX_PAGINATION_PAGES_def Let_def

lemma demo_process_site:
  "process_site ascii_unicode demo_env (ustr ''http://example.edu/staff'') None w =
     \<lparr>results =
        [\<lparr>r_name = ustr ''Ann Lee'', r_school = [], r_research_area = [],
          r_email = ustr ''ann.lee@example.edu'', r_phone = [],
          r_profile_url = ustr ''http://example.edu/ann''\<rparr>,
         \<lparr>r_name = ustr ''Carl Orff'', r_school = [], r_research_area = [],
          r_email = ustr ''carl@example.edu'', r_phone = [],
          r_profile_url = ustr ''http://example.edu/carl''\<rparr>],
      visited = {ustr ''http://example.edu/carl'', ustr ''http://example.edu/bob'',
                 ustr ''http://example.edu/ann''},
      world = w + 5,
      events = [Listing (ustr ''http://example.edu/staff''), Profile (ustr ''http://example.edu/ann''),
                Profile (ustr ''http://example.edu/bob''), Listing (ustr ''http://example.edu/staff2''),
                Profile (ustr ''http://example.edu/carl'')]\<rparr>"
  by (simp add: crawl_steps) 

subsection \<open>Pagination\<close>

lemma scan_links_None:
  "\<forall>a\<in>set links. \<not> (is_next_text (text_of a) \<and> href_or_empty a \<noteq> []) \<Longrightarrow>
   scan_links E base links = None"
  by (induction links) auto

lemma scan_links_first:
  "\<forall>b\<in>set pre. \<not> (is_next_text (text_of b) \<and> href_or_empty b \<noteq> []) \<Longrightarrow>
   is_next_text (text_of a) \<Longrightarrow> href_or_empty a \<noteq> [] \<Longrightarrow>
   scan_links E base (pre @ a # post) = Some (urljoin E base (href_or_empty a))"
  by (induction pre) auto

text \<open>
  Claim C9 as stated fails in its second part: \<open>find_next_page\<close> has no cycle guard. On
  the second listing of the example site, at \<open>http://example.edu/staff2\<close>, no anchor has
  \<open>rel=next\<close>, the text \<open>Next\<close> of the second anchor is in the vocabulary and its \<open>href\<close>
  resolves to the address of the page itself; the result is that address, not none.
\<close>

theorem find_next_page_cycle_counterexample:
  "select_rel_next demo_env (ustr ''L2'') = None \<and>
   find_all_a demo_env (ustr ''L2'') =
     [\<lparr>href = Some (ustr ''http://example.edu/ann''), get_text = ustr ''Ann Lee''\<rparr>,
      \<lparr>href = Some (ustr ''http://example.edu/staff2''), get_text = ustr ''Next''\<rparr>] \<and>
   urljoin demo_env (ustr ''http://example.edu/staff2'') (ustr ''http://example.edu/staff2'') =
     ustr ''http://example.edu/staff2'' \<and>
   find_next_page demo_env (ustr ''L2'') (ustr ''http://example.edu/staff2'') =
     Some (ustr ''http://example.edu/staff2'')"
  by (simp add: demo_next demo_fields) (simp add: demo_env_def)

text \<open>
  Claim C9, amended. \<open>find_next_page\<close> returns none when no anchor is selected by
  \<open>a[rel=next]\<close> and no anchor's text matches the next-page vocabulary. When the anchor
  selected by \<open>a[rel=next]\<close> has a non-empty \<open>href\<close>, it returns that \<open>href\<close> resolved against
  the address of the page; otherwise, when an anchor has a text in the vocabulary and a
  non-empty \<open>href\<close>, it returns the resolved \<open>href\<close> of the first such anchor. The result is
  returned whatever it is, also when it is the address of the current page: the
  comparison with the current address is made by the caller, \<open>process_site\<close>.
\<close>

theorem find_next_page_resolved:
  "(select_rel_next E html = None \<and>
    (\<forall>a\<in>set (find_all_a E html). \<not> is_next_text (text_of a)) \<longrightarrow>
      find_next_page E html base = None) \<and>
   (\<forall>a. select_rel_next E html = Some a \<and> href_or_empty a \<noteq> [] \<longrightarrow>
      find_next_page E html base = Some (urljoin E base (href_or_empty a))) \<and>
   (\<forall>pre a post.
      (\<forall>b. select_rel_next E html = Some b \<longrightarrow> href_or_empty b = []) \<and>
      find_all_a E html = pre @ a # post \<and>
      (\<forall>b\<in>set pre. \<not> (is_next_text (text_of b) \<and> href_or_empty b \<noteq> [])) \<and>
      is_next_text (text_of a) \<and> href_or_empty a \<noteq> [] \<longrightarrow>
      find_next_page E html base = Some (urljoin E base (href_or_empty a)))"
proof (intro conjI allI impI)
  assume "select_rel_next E html = None \<and> (\<forall>a\<in>set (find_all_a E html). \<not> is_next_text (text_of a))"
  then show "find_next_page E html base = None"
    by (simp add: find_next_page_def scan_links_None)
next
  fix a assume "select_rel_next E html = Some a \<and> href_or_empty a \<noteq> []"
  then show "find_next_page E html base = Some (urljoin E base (href_or_empty a))"
    by (simp add: find_next_page_def)
next
  fix pre a post
  assume h: "(\<forall>b. select_rel_next E html = Some b \<longrightarrow> href_or_empty b = []) \<and>
      find_all_a E html = pre @ a # post \<and>
      (\<forall>b\<in>set pre. \<not> (is_next_text (text_of b) \<and> href_or_empty b \<noteq> [])) \<and>
      is_next_text (text_of a) \<and> href_or_empty a \<noteq> []"
  then have "scan_links E base (find_all_a E html) = Some (urljoin E base (href_or_empty a))"
    using scan_links_first[of pre a E base post] by simp
  with h show "find_next_page E html base = Some (urljoin E base (href_or_empty a))"
    by (auto simp: find_next_page_def split: option.splits)
qed


lemma demo_selects:
  "select_rel_next demo_env (ustr ''A'') = None"
  "find_all_a demo_env (ustr ''A'') = []"
  "select_rel_next demo_env (ustr ''L1'') =
     Some \<lparr>href = Some (ustr ''http://example.edu/staff2''), get_text = ustr ''2''\<rparr>"
  by (simp_all add: demo_env_def)

text \<open>
  On the example site: Ann Lee's page has no anchors and no next page; the first listing
  has a \<open>rel=next\<close> anchor and its next page is the second listing.
\<close>

theorem find_next_page_resolved_witness:
  "select_rel_next demo_env (ustr ''A'') = None \<and>
   find_all_a demo_env (ustr ''A'') = [] \<and>
   find_next_page demo_env (ustr ''A'') (ustr ''http://example.edu/ann'') = None \<and>
   select_rel_next demo_env (ustr ''L1'') =
     Some \<lparr>href = Some (ustr ''http://example.edu/staff2''), get_text = ustr ''2''\<rparr> \<and>
   find_next_page demo_env (ustr ''L1'') (ustr ''http://example.edu/staff'') =
     Some (ustr ''http://example.edu/staff2'')"
proof -
  have 1: "find_next_page demo_env (ustr ''A'') (ustr ''http://example.edu/ann'') = None"
    using find_next_page_resolved[of demo_env "ustr ''A''" "ustr ''http://example.edu/ann''"]
    by (simp add: demo_selects)
  have 2: "find_next_page demo_env (ustr ''L1'') (ustr ''http://example.edu/staff'') =
     Some (ustr ''http://example.edu/staff2'')"
    using find_next_page_resolved[of demo_env "ustr ''L1''" "ustr ''http://example.edu/staff''"]
    by (simp add: demo_selects href_or_empty_def demo_fields)
  from 1 2 show ?thesis by (simp add: demo_selects)
qed

text \<open>
  Claim C8. \<open>process_site\<close> is a total function: the pagination loop is defined by
  recursion on the number of pages still allowed, so it returns on every site. It
  requests at most 20 listing pages (\<^verbatim>\<open>MAX_PAGINATION_PAGES\<close>). And at every turn of the
  loop, when the listing page is allowed and loaded and its next link resolves to the
  address of the page itself, the loop processes the profiles found on that page and
  stops: the page is requested once and no listing page is requested after it.
\<close>

theorem process_site_pagination:
  "length (listing_urls (events (process_site U E site_url max_profiles w))) \<le> 20 \<and>
   (\<forall>pages next_url st st1 html st2.
      next_url \<noteq> [] \<and> pages < MAX_PAGINATION_PAGES \<and>
      client_allowed E next_url st = (True, st1) \<and>
      client_fetch E (Listing next_url) next_url st1 = (Some html, st2) \<and> html \<noteq> [] \<and>
      find_next_page E html next_url = Some next_url \<longrightarrow>
      pages_loop U E max_profiles site_regdom pages next_url st =
        snd (profiles_loop U E max_profiles site_regdom next_url
               (discover_profiles E html next_url) st2) \<and>
      listing_urls (events (pages_loop U E max_profiles site_regdom pages next_url st)) =
        listing_urls (events st) @ [next_url])"
proof (intro conjI allI impI)
  show "length (listing_urls (events (process_site U E site_url max_profiles w))) \<le> 20"
    unfolding process_site_def
    using pages_loop_listings[of U E max_profiles "registered_domain E site_url" 0 site_url
        "\<lparr>results = [], visited = {}, world = w, events = []\<rparr>"]
    by (simp add: MAX_PAGINATION_PAGES_def)
next
  fix pages next_url st st1 html st2
  assume h: "next_url \<noteq> [] \<and> pages < MAX_PAGINATION_PAGES \<and>
      client_allowed E next_url st = (True, st1) \<and>
      client_fetch E (Listing next_url) next_url st1 = (Some html, st2) \<and> html \<noteq> [] \<and>
      find_next_page E html next_url = Some next_url"
  then show "pages_loop U E max_profiles site_regdom pages next_url st =
        snd (profiles_loop U E max_profiles site_regdom next_url
               (discover_profiles E html next_url) st2)"
    using pages_loop_self_cycle(1)[of next_url pages E st st1 html st2] by blast
  from h show "listing_urls (events (pages_loop U E max_profiles site_regdom pages next_url st)) =
        listing_urls (events st) @ [next_url]"
    using pages_loop_self_cycle(2)[of next_url pages E st st1 html st2] by blast
qed

text \<open>
  On the example site the second listing points to itself: crawling from it requests it
  once.
\<close>

theorem process_site_pagination_witness:
  "ustr ''http://example.edu/staff2'' \<noteq> [] \<and> 0 < MAX_PAGINATION_PAGES \<and>
   client_allowed demo_env (ustr ''http://example.edu/staff2'')
       \<lparr>results = [], visited = {}, world = 0, events = []\<rparr> =
     (True, \<lparr>results = [], visited = {}, world = 0, events = []\<rparr>) \<and>
   client_fetch demo_env (Listing (ustr ''http://example.edu/staff2'')) (ustr ''http://example.edu/staff2'')
       \<lparr>results = [], visited = {}, world = 0, events = []\<rparr> =
     (Some (ustr ''L2''),
      \<lparr>results = [], visited = {}, world = 1, events = [Listing (ustr ''http://example.edu/staff2'')]\<rparr>) \<and>
   ustr ''L2'' \<noteq> [] \<and>
   find_next_page demo_env (ustr ''L2'') (ustr ''http://example.edu/staff2'') =
     Some (ustr ''http://example.edu/staff2'') \<and>
   listing_urls (events (pages_loop ascii_unicode demo_env None (ustr ''example.edu'') 0
       (ustr ''http://example.edu/staff2'') \<lparr>results = [], visited = {}, world = 0, events = []\<rparr>)) =
     [ustr ''http://example.edu/staff2''] \<and>
   length (listing_urls (events (process_site ascii_unicode demo_env
       (ustr ''http://example.edu/staff'') None 0))) \<le> 20"
proof -
  let ?st = "\<lparr>results = [], visited = {}, world = 0::nat, events = []\<rparr>"
  let ?u = "ustr ''http://example.edu/staff2''"
  have a: "client_allowed demo_env ?u ?st = (True, ?st)"
    by (simp add: client_allowed_def demo_fields)
  have f: "client_fetch demo_env (Listing ?u) ?u ?st =
     (Some (ustr ''L2''), \<lparr>results = [], visited = {}, world = 1, events = [Listing ?u]\<rparr>)"
    by (simp add: client_fetch_def demo_fields)
  have m: "0 < MAX_PAGINATION_PAGES" by (simp add: MAX_PAGINATION_PAGES_def)
  note T = process_site_pagination[where U = ascii_unicode and E = demo_env
         and site_url = "ustr ''http://example.edu/staff''" and max_profiles = None and w = 0
         and site_regdom = "ustr ''example.edu''"]
  have h: "?u \<noteq> [] \<and> 0 < MAX_PAGINATION_PAGES \<and>
      client_allowed demo_env ?u ?st = (True, ?st) \<and>
      client_fetch demo_env (Listing ?u) ?u ?st =
        (Some (ustr ''L2''), \<lparr>results = [], visited = {}, world = 1, events = [Listing ?u]\<rparr>) \<and>
      ustr ''L2'' \<noteq> [] \<and>
      find_next_page demo_env (ustr ''L2'') ?u = Some ?u"
    using a f m demo_next(2)[of ?u] by simp
  have b: "length (listing_urls (events (process_site ascii_unicode demo_env
       (ustr ''http://example.edu/staff'') None 0))) \<le> 20"
    using T by (rule conjunct1)
  have "listing_urls (events (pages_loop ascii_unicode demo_env None (ustr ''example.edu'') 0 ?u ?st)) =
       listing_urls (events ?st) @ [?u]"
    using T[THEN conjunct2, rule_format, OF h] by (rule conjunct2)
  then have c: "listing_urls (events (pages_loop ascii_unicode demo_env None (ustr ''example.edu'') 0 ?u ?st)) =
       [?u]" by simp
  from h b c show ?thesis by blast
qed

text \<open>
  Claim C10. In one run of \<open>process_site\<close> no address is requested twice as a profile
  page, and every address requested as a profile page is in \<open>visited\<close>: the set is created
  once before the pagination loop, so a link found again on a later listing page is
  skipped. A page is parsed only after it was requested, so it is parsed at most once
  too.
\<close>

theorem process_site_fetches_profile_once:
  "distinct (profile_urls (events (process_site U E site_url max_profiles w))) \<and>
   set (profile_urls (events (process_site U E site_url max_profiles w))) \<subseteq>
     visited (process_site U E site_url max_profiles w)"
proof -
  have "fetched_once \<lparr>results = [], visited = {}, world = w, events = []\<rparr>"
    by (simp add: fetched_once_def)
  then have "fetched_once (process_site U E site_url max_profiles w)"
    unfolding process_site_def by (rule pages_loop_fetched_once)
  then show ?thesis by (simp add: fetched_once_def)
qed

text \<open>
  On the example site Ann Lee's profile is linked from both listings and requested once.
\<close>

theorem process_site_fetches_profile_once_witness:
  "discover_profiles demo_env (ustr ''L1'') (ustr ''http://example.edu/staff'') =
     [\<lparr>link_name = ustr ''Ann Lee'', link_profile_url = ustr ''http://example.edu/ann''\<rparr>,
      \<lparr>link_name = ustr ''Bob Ray'', link_profile_url = ustr ''http://example.edu/bob''\<rparr>] \<and>
   discover_profiles demo_env (ustr ''L2'') (ustr ''http://example.edu/staff2'') =
     [\<lparr>link_name = ustr ''Ann Lee'', link_profile_url = ustr ''http://example.edu/ann''\<rparr>,
      \<lparr>link_name = ustr ''Carl Orff'', link_profile_url = ustr ''http://example.edu/carl''\<rparr>] \<and>
   profile_urls (events (process_site ascii_unicode demo_env (ustr ''http://example.edu/staff'') None 0)) =
     [ustr ''http://example.edu/ann'', ustr ''http://example.edu/bob'', ustr ''http://example.edu/carl''] \<and>
   distinct (profile_urls (events (process_site ascii_unicode demo_env
     (ustr ''http://example.edu/staff'') None 0)))"
  using process_site_fetches_profile_once[of ascii_unicode demo_env "ustr ''http://example.edu/staff''" None 0]
  by (simp add: demo_process_site demo_fields)

subsection \<open>The rows returned\<close>

text \<open>
  Claim C1. Every row returned by \<open>scrape_sites\<close> has a non-empty address that passes
  \<open>email_allowed\<close> for the registrable domain of one of the sites that were crawled, and
  this address is the one \<open>parse_profile\<close> returned for a page at the profile address of
  the row. The site is the one the row comes from: every row that \<open>process_site\<close> returns
  for a site has a non-empty address that passes \<open>email_allowed\<close> for the registrable
  domain of that site. And when no candidate address of a page survives
  \<open>pick_best_email\<close>, \<open>parse_profile\<close> returns the empty record, from which \<open>process_site\<close>
  makes no row.
\<close>

theorem scrape_sites_emails_allowed:
  "(\<forall>x\<in>set (scrape_sites U E sites uni_label max_profiles translate_en w).
      row_email x \<noteq> [] \<and>
      (\<exists>site\<in>set sites.
         site_ok U (py_strip site) \<and>
         email_allowed U (row_email x) (registered_domain E (py_strip site)) \<and>
         (\<exists>html name school research phone.
            parse_profile U E html (row_profile_url x) (registered_domain E (py_strip site)) =
              (name, school, research, row_email x, phone)))) \<and>
   (\<forall>site_url limit w'.
      \<forall>r\<in>set (results (process_site U E site_url limit w')).
        r_email r \<noteq> [] \<and> email_allowed U (r_email r) (registered_domain E site_url)) \<and>
   (\<forall>html base site_regdom.
      pick_best_email U (strip_trailing_punct (extract_name E html))
        (extract_emails U (profile_text E html)) site_regdom = [] \<longrightarrow>
      parse_profile U E html base site_regdom = ([], [], [], [], []))"
proof (intro conjI ballI allI impI)
  fix site_url limit w' r
  assume "r \<in> set (results (process_site U E site_url limit w'))"
  with process_site_kept[of U E site_url limit w']
  have k: "kept U E (registered_domain E site_url) (r_email r) (r_profile_url r)" by blast
  then show "r_email r \<noteq> []" unfolding kept_def by blast
  from k show "email_allowed U (r_email r) (registered_domain E site_url)"
    unfolding kept_def by blast
next
  fix x assume "x \<in> set (scrape_sites U E sites uni_label max_profiles translate_en w)"
  with scrape_sites_accepted[of U E sites uni_label max_profiles translate_en w]
  have a: "accepted U E sites x" by blast
  then show "row_email x \<noteq> []" unfolding accepted_def kept_def by blast
  from a show "\<exists>site\<in>set sites.
         site_ok U (py_strip site) \<and>
         email_allowed U (row_email x) (registered_domain E (py_strip site)) \<and>
         (\<exists>html name school research phone.
            parse_profile U E html (row_profile_url x) (registered_domain E (py_strip site)) =
              (name, school, research, row_email x, phone))"
    unfolding accepted_def kept_def by blast
next
  fix html base site_regdom
  assume "pick_best_email U (strip_trailing_punct (extract_name E html))
        (extract_emails U (profile_text E html)) site_regdom = []"
  then show "parse_profile U E html base site_regdom = ([], [], [], [], [])"
    by (rule parse_profile_no_email)
qed

lemma demo_strings:
  "py_strip (ustr '' http://example.edu/staff '') = ustr ''http://example.edu/staff''"
  "py_strip (ustr ''http://example.edu/staff'') = ustr ''http://example.edu/staff''"
  "site_ok ascii_unicode (ustr ''http://example.edu/staff'')"
  "py_lower ascii_unicode (ustr ''Ann Lee'') = ustr ''ann lee''"
  "py_lower ascii_unicode (ustr ''Carl Orff'') = ustr ''carl orff''"
  by (simp_all add: py_strip_def site_ok_def py_lower_def ascii_unicode_def ascii_lower_def
        startswith_def rx_eval del: ustr_eq_iff ustr_Nil_iff)

lemmas scrape_steps = scrape_sites_def collect_rows_def demo_strings demo_process_site
  maybe_translate_def reached_def demo_fields dedup_key_def Let_def

lemma demo_scrape_one:
  "scrape_sites ascii_unicode demo_env [ustr '' http://example.edu/staff ''] [] None False 0 =
     [\<lparr>row_university = ustr ''Example University'', row_school = [], row_name = ustr ''Ann Lee'',
       row_email = ustr ''ann.lee@example.edu'', row_phone = [], row_research_area = [],
       row_profile_url = ustr ''http://example.edu/ann''\<rparr>,
      \<lparr>row_university = ustr ''Example University'', row_school = [], row_name = ustr ''Carl Orff'',
       row_email = ustr ''carl@example.edu'', row_phone = [], row_research_area = [],
       row_profile_url = ustr ''http://example.edu/carl''\<rparr>]"
  by (simp add: scrape_steps)

lemma demo_no_email:
  "pick_best_email ascii_unicode (strip_trailing_punct (extract_name demo_env (ustr ''B'')))
     (extract_emails ascii_unicode (profile_text demo_env (ustr ''B''))) (ustr ''example.edu'') = []"
  by (simp add: crawl_eval del: ustr_eq_iff ustr_Nil_iff)

text \<open>
  On the example site the rows are those of Ann Lee and Carl Orff; Bob Ray's page, with
  a free-mail address only, gives the empty record.
\<close>

theorem scrape_sites_emails_allowed_witness:
  "scrape_sites ascii_unicode demo_env [ustr '' http://example.edu/staff ''] [] None False 0 =
     [\<lparr>row_university = ustr ''Example University'', row_school = [], row_name = ustr ''Ann Lee'',
       row_email = ustr ''ann.lee@example.edu'', row_phone = [], row_research_area = [],
       row_profile_url = ustr ''http://example.edu/ann''\<rparr>,
      \<lparr>row_university = ustr ''Example University'', row_school = [], row_name = ustr ''Carl Orff'',
       row_email = ustr ''carl@example.edu'', row_phone = [], row_research_area = [],
       row_profile_url = ustr ''http://example.edu/carl''\<rparr>] \<and>
   site_ok ascii_unicode (py_strip (ustr '' http://example.edu/staff '')) \<and>
   email_allowed ascii_unicode (ustr ''ann.lee@example.edu'')
     (registered_domain demo_env (py_strip (ustr '' http://example.edu/staff ''))) \<and>
   email_allowed ascii_unicode (ustr ''carl@example.edu'')
     (registered_domain demo_env (py_strip (ustr '' http://example.edu/staff ''))) \<and>
   pick_best_email ascii_unicode (strip_trailing_punct (extract_name demo_env (ustr ''B'')))
     (extract_emails ascii_unicode (profile_text demo_env (ustr ''B''))) (ustr ''example.edu'') = [] \<and>
   parse_profile ascii_unicode demo_env (ustr ''B'') (ustr ''http://example.edu/bob'')
     (ustr ''example.edu'') = ([], [], [], [], [])"
proof -
  note T = scrape_sites_emails_allowed[where U = ascii_unicode and E = demo_env
      and sites = "[ustr '' http://example.edu/staff '']" and uni_label = "[]"
      and max_profiles = None and translate_en = False and w = 0]
  from T[THEN conjunct1] have
    "site_ok ascii_unicode (py_strip (ustr '' http://example.edu/staff '')) \<and>
     email_allowed ascii_unicode (ustr ''ann.lee@example.edu'')
       (registered_domain demo_env (py_strip (ustr '' http://example.edu/staff ''))) \<and>
     email_allowed ascii_unicode (ustr ''carl@example.edu'')
       (registered_domain demo_env (py_strip (ustr '' http://example.edu/staff '')))"
    unfolding demo_scrape_one by simp
  moreover from T[THEN conjunct2, THEN conjunct2, rule_format, OF demo_no_email] have
    "parse_profile ascii_unicode demo_env (ustr ''B'') (ustr ''http://example.edu/bob'')
       (ustr ''example.edu'') = ([], [], [], [], [])" .
  ultimately show ?thesis using demo_scrape_one demo_no_email by blast
qed






end
